theory Spec2Isabelle
  imports Main "HOL-Library.Word" "HOL-Library.Multiset"
begin

section \<open>Data model (threadpool.h)\<close>

text \<open>
  \<^verbatim>\<open>enum class PoolMode { MODE_FIXED, MODE_CACHED }\<close>
\<close>

datatype PoolMode = MODE_FIXED | MODE_CACHED

text \<open>
  The three condition variables of the pool, and the result of a timed wait on one
  (\<^verbatim>\<open>std::cv_status\<close>).
\<close>

datatype condvar = queueNotFull | queueNotEmpty | waitForWorkFinished

datatype cv_status = no_timeout | timeout

text \<open>
  The shared state behind a \<^verbatim>\<open>std::packaged_task\<close> / \<^verbatim>\<open>std::future\<close> pair:
  not yet ready, ready with a value, or ready with a \<^verbatim>\<open>std::future_error\<close>.
  Shared states live on the heap, outside the pool object; the heap is the list of all
  shared states allocated so far and a future is the index of its shared state.
\<close>

datatype future_errc = broken_promise | promise_already_satisfied

datatype 'r shared_state = NotReady | Ready 'r | Failed future_errc

type_synonym 'r heap = "'r shared_state list"

type_synonym future = nat

text \<open>
  A \<^verbatim>\<open>std::packaged_task<RtType()>\<close>: the stored callable (the result of
  \<^verbatim>\<open>std::bind(func, args...)\<close>) and a reference to its shared state.
\<close>

datatype 'r packaged_task = PackagedTask (stored: "unit \<Rightarrow> 'r") (state_ref: nat)

text \<open>
  \<^verbatim>\<open>using Task = std::function<void()>\<close>. A \<^verbatim>\<open>Task\<close> is either empty (a
  default-constructed \<^verbatim>\<open>std::function\<close>, which compares equal to \<^verbatim>\<open>nullptr\<close>) or
  the wrapper lambda \<^verbatim>\<open>[task](){ (*task)(); }\<close> of \<^verbatim>\<open>submitTask\<close>, which owns a
  \<^verbatim>\<open>shared_ptr\<close> to a packaged task.
\<close>

datatype 'r Task = NullTask | Wrapper "'r packaged_task"

text \<open>
  The operations on the structures shared between threads are logged in program order:
  condition-variable notifications, queue pushes and pops, the updates of the two atomic
  counters, and insertions into and removals from the thread map.
\<close>

datatype 'r action =
    NotifyAll condvar
  | QueuePush "'r Task"
  | QueuePop "'r Task"
  | IdleInc
  | IdleDec
  | TaskInc
  | TaskDec
  | MapEmplace nat
  | MapErase nat
  | ThreadStart nat

text \<open>
  The members of \<^verbatim>\<open>class ThreadPool\<close>. \<^verbatim>\<open>threadsMap_\<close> is represented by the list
  of its keys (the \<^verbatim>\<open>Thread\<close> objects it maps to are declared in thread.h).
  The \<^verbatim>\<open>size_t\<close> members are natural numbers; \<^verbatim>\<open>std::atomic_int idleThreadSize_\<close> and
  \<^verbatim>\<open>std::atomic_uint taskSize_\<close> are 32-bit words, whose arithmetic wraps around and
  whose order \<open><\<close> is the unsigned one. The field \<open>oplog\<close> is the log of operations
  described above; it is not a member of the class.
\<close>

record 'r ThreadPool =
  threadsMap :: "nat list"
  initThreadSize :: nat
  maxThreadSize :: nat
  maxThreadFreeTime :: nat
  idleThreadSize :: "32 word"
  taskQueue :: "'r Task list"
  taskSize :: "32 word"
  taskQueueMaxSize :: nat
  poolMode :: PoolMode
  isPoolRunning :: bool
  oplog :: "'r action list"

section \<open>Construction and configuration (threadpool.cpp)\<close>

text \<open>
  \<^verbatim>\<open>const int TASK_MAX_SIZE = INT32_MAX; const int THREAD_MAX_SIZE = 1024;\<close>
\<close>

definition TASK_MAX_SIZE :: int where
  "TASK_MAX_SIZE = 2147483647"

definition THREAD_MAX_SIZE :: int where
  "THREAD_MAX_SIZE = 1024"

text \<open>
  The conversion of an \<^verbatim>\<open>int\<close> to \<^verbatim>\<open>size_t\<close> (64 bits): the value modulo \<open>2 ^ 64\<close>.
\<close>

definition size_t_of_int :: "int \<Rightarrow> nat" where
  "size_t_of_int i = nat (i mod 2 ^ 64)"

text \<open>The constructor's member initialiser list.\<close>

definition new_ThreadPool :: "'r ThreadPool" where
  "new_ThreadPool =
     \<lparr> threadsMap = [],
       initThreadSize = 0,
       maxThreadSize = size_t_of_int THREAD_MAX_SIZE,
       maxThreadFreeTime = 60,
       idleThreadSize = 0,
       taskQueue = [],
       taskSize = 0,
       taskQueueMaxSize = size_t_of_int TASK_MAX_SIZE,
       poolMode = MODE_FIXED,
       isPoolRunning = False,
       oplog = [] \<rparr>"

definition isRunningState :: "'r ThreadPool \<Rightarrow> bool" where
  "isRunningState p = isPoolRunning p"

text \<open>
  The four setters. Each returns at once when the pool is running;
  \<^verbatim>\<open>setMaxThreadFreeTime_\<close> and \<^verbatim>\<open>setTaskQueueMaxSize\<close> assign only in Cached mode.
  \<^verbatim>\<open>setMaxThreadSize\<close> and \<^verbatim>\<open>setTaskQueueMaxSize\<close> take an \<^verbatim>\<open>int\<close> and store it in a
  \<^verbatim>\<open>size_t\<close> member.
\<close>

definition setMaxThreadSize :: "int \<Rightarrow> 'r ThreadPool \<Rightarrow> 'r ThreadPool" where
  "setMaxThreadSize maxSize p =
     (if isRunningState p then p
      else p\<lparr>maxThreadSize := size_t_of_int maxSize\<rparr>)"

definition setMaxThreadFreeTime :: "nat \<Rightarrow> 'r ThreadPool \<Rightarrow> 'r ThreadPool" where
  "setMaxThreadFreeTime time p =
     (if isRunningState p then p
      else if poolMode p = MODE_CACHED then p\<lparr>maxThreadFreeTime := time\<rparr>
      else p)"

definition setTaskQueueMaxSize :: "int \<Rightarrow> 'r ThreadPool \<Rightarrow> 'r ThreadPool" where
  "setTaskQueueMaxSize maxSize p =
     (if isRunningState p then p
      else if poolMode p = MODE_CACHED then p\<lparr>taskQueueMaxSize := size_t_of_int maxSize\<rparr>
      else p)"

definition setMode :: "PoolMode \<Rightarrow> 'r ThreadPool \<Rightarrow> 'r ThreadPool" where
  "setMode mode p =
     (if isRunningState p then p
      else p\<lparr>poolMode := mode\<rparr>)"

section \<open>Packaged tasks and futures (the standard library objects used by submitTask)\<close>

text \<open>
  \<^verbatim>\<open>std::make_shared<std::packaged_task<RtType()>>(f)\<close> allocates a fresh shared state,
  not ready; \<^verbatim>\<open>get_future\<close> hands out the reference to it.
\<close>

definition make_packaged_task :: "(unit \<Rightarrow> 'r) \<Rightarrow> 'r heap \<Rightarrow> 'r packaged_task \<times> 'r heap" where
  "make_packaged_task f h = (PackagedTask f (length h), h @ [NotReady])"

definition get_future :: "'r packaged_task \<Rightarrow> future" where
  "get_future t = state_ref t"

text \<open>
  \<^verbatim>\<open>(*task)()\<close>: runs the stored callable and makes the shared state ready with its
  value. On a shared state that is already ready the call throws
  \<^verbatim>\<open>promise_already_satisfied\<close> and leaves it as it is.
\<close>

definition invoke :: "'r packaged_task \<Rightarrow> 'r heap \<Rightarrow> 'r heap" where
  "invoke t h =
     (if state_ref t < length h \<and> h ! state_ref t = NotReady
      then h[state_ref t := Ready (stored t ())]
      else h)"

text \<open>
  The destructor of a packaged task, run when the last \<^verbatim>\<open>shared_ptr\<close> to it goes away:
  it abandons the shared state, and a shared state that was never made ready then holds
  the error \<^verbatim>\<open>broken_promise\<close>.
\<close>

definition destroy_packaged_task :: "'r packaged_task \<Rightarrow> 'r heap \<Rightarrow> 'r heap" where
  "destroy_packaged_task t h =
     (if state_ref t < length h \<and> h ! state_ref t = NotReady
      then h[state_ref t := Failed broken_promise]
      else h)"

text \<open>
  \<^verbatim>\<open>future.get()\<close>: returns the value, throws the stored error, or blocks while the
  shared state is not ready. A reference outside the heap is no future of this model.
\<close>

datatype 'r get_result = Returns 'r | Throws future_errc | Blocks | NoState

definition future_get :: "'r heap \<Rightarrow> future \<Rightarrow> 'r get_result" where
  "future_get h fut =
     (if fut < length h
      then (case h ! fut of NotReady \<Rightarrow> Blocks | Ready v \<Rightarrow> Returns v | Failed e \<Rightarrow> Throws e)
      else NoState)"

text \<open>
  Calling a \<^verbatim>\<open>Task\<close> (\<^verbatim>\<open>if (task != nullptr) task();\<close>) and destroying it at the end
  of the worker's loop iteration, where the worker's copy is the last owner of the
  packaged task.
\<close>

definition run_task :: "'r Task \<Rightarrow> 'r heap \<Rightarrow> 'r heap" where
  "run_task task h = (case task of NullTask \<Rightarrow> h | Wrapper t \<Rightarrow> invoke t h)"

definition release_task :: "'r Task \<Rightarrow> 'r heap \<Rightarrow> 'r heap" where
  "release_task task h = (case task of NullTask \<Rightarrow> h | Wrapper t \<Rightarrow> destroy_packaged_task t h)"

section \<open>Primitive operations on the shared members\<close>

definition log_op :: "'r action \<Rightarrow> 'r ThreadPool \<Rightarrow> 'r ThreadPool" where
  "log_op a p = p\<lparr>oplog := oplog p @ [a]\<rparr>"

definition notify_all :: "condvar \<Rightarrow> 'r ThreadPool \<Rightarrow> 'r ThreadPool" where
  "notify_all c p = log_op (NotifyAll c) p"

definition idle_inc :: "'r ThreadPool \<Rightarrow> 'r ThreadPool" where
  "idle_inc p = log_op IdleInc (p\<lparr>idleThreadSize := idleThreadSize p + 1\<rparr>)"

definition idle_dec :: "'r ThreadPool \<Rightarrow> 'r ThreadPool" where
  "idle_dec p = log_op IdleDec (p\<lparr>idleThreadSize := idleThreadSize p - 1\<rparr>)"

definition task_inc :: "'r ThreadPool \<Rightarrow> 'r ThreadPool" where
  "task_inc p = log_op TaskInc (p\<lparr>taskSize := taskSize p + 1\<rparr>)"

definition task_dec :: "'r ThreadPool \<Rightarrow> 'r ThreadPool" where
  "task_dec p = log_op TaskDec (p\<lparr>taskSize := taskSize p - 1\<rparr>)"

definition queue_emplace :: "'r Task \<Rightarrow> 'r ThreadPool \<Rightarrow> 'r ThreadPool" where
  "queue_emplace t p = log_op (QueuePush t) (p\<lparr>taskQueue := taskQueue p @ [t]\<rparr>)"

text \<open>
  \<^verbatim>\<open>taskQueue_.front()\<close> and \<^verbatim>\<open>taskQueue_.pop()\<close>. Both are called on a non-empty
  queue only; on an empty one (undefined behaviour in C++) the model yields the empty
  task and leaves the queue alone.
\<close>

definition queue_front :: "'r ThreadPool \<Rightarrow> 'r Task" where
  "queue_front p = (case taskQueue p of [] \<Rightarrow> NullTask | t # ts \<Rightarrow> t)"

definition queue_pop :: "'r ThreadPool \<Rightarrow> 'r ThreadPool" where
  "queue_pop p =
     (case taskQueue p of [] \<Rightarrow> p | t # ts \<Rightarrow> log_op (QueuePop t) (p\<lparr>taskQueue := ts\<rparr>))"

text \<open>
  \<^verbatim>\<open>threadsMap_.emplace(id, ...)\<close> inserts nothing when the key is present;
  \<^verbatim>\<open>threadsMap_.erase(id)\<close> removes the key if it is there.
\<close>

definition map_emplace :: "nat \<Rightarrow> 'r ThreadPool \<Rightarrow> 'r ThreadPool" where
  "map_emplace tid p =
     log_op (MapEmplace tid)
       (if tid \<in> set (threadsMap p) then p else p\<lparr>threadsMap := threadsMap p @ [tid]\<rparr>)"

definition map_erase :: "nat \<Rightarrow> 'r ThreadPool \<Rightarrow> 'r ThreadPool" where
  "map_erase tid p = log_op (MapErase tid) (p\<lparr>threadsMap := removeAll tid (threadsMap p)\<rparr>)"

text \<open>
  Modelled from the spec: the class \<^verbatim>\<open>Thread\<close> (thread.h) is not among the sources.
  The spec describes a worker as one thread with "a stable numeric id (assigned at
  creation, reused only after removal)" that runs the consume-loop. So the id that the
  constructor of a new \<^verbatim>\<open>Thread\<close> assigns (\<^verbatim>\<open>getId()\<close>) is a parameter of the
  operations that create threads, and \<^verbatim>\<open>Thread::start()\<close> launches a thread that runs
  \<^verbatim>\<open>threadFunc\<close> with this id; in the pool it is only logged.
\<close>

definition thread_start :: "nat \<Rightarrow> 'r ThreadPool \<Rightarrow> 'r ThreadPool" where
  "thread_start tid p = log_op (ThreadStart tid) p"

section \<open>submitTask (threadpool.h)\<close>

text \<open>
  The result of a call: the future returned to the caller, the id of the thread the call
  started (if it started one), and the pool and the heap after the call.
\<close>

record 'r submit_result =
  sr_future :: future
  sr_started :: "nat option"
  sr_pool :: "'r ThreadPool"
  sr_heap :: "'r heap"

text \<open>
  \<open>submitTask dflt func args new_id p h\<close>. \<open>dflt\<close> is the value \<^verbatim>\<open>RtType()\<close>, \<open>new_id\<close>
  the id a \<^verbatim>\<open>Thread\<close> created by this call gets. \<open>p\<close> is the pool at the moment
  \<^verbatim>\<open>queueNotFull_.wait_for(lock, 1s, pred)\<close> returns with the lock held: the call
  returns \<open>pred()\<close> as evaluated then, which is false only after the full second has
  elapsed with the queue still full. Everything after the wait runs under the lock.

  When the wait fails, a second packaged task around \<^verbatim>\<open>[]()->RtType { return RtType(); }\<close>
  is made and its future returned; neither packaged task is ever called, and both
  \<^verbatim>\<open>shared_ptr\<close>s are locals that die at the return.
\<close>

definition submitTask ::
  "'r \<Rightarrow> ('a \<Rightarrow> 'r) \<Rightarrow> 'a \<Rightarrow> nat \<Rightarrow> 'r ThreadPool \<Rightarrow> 'r heap \<Rightarrow> 'r submit_result" where
  "submitTask dflt func args new_id p h =
     (let (task, h1) = make_packaged_task (\<lambda>_. func args) h;
          result = get_future task
      in if \<not> (length (taskQueue p) < taskQueueMaxSize p) then
           (let (task', h2) = make_packaged_task (\<lambda>_. dflt) h1;
                fut = get_future task';
                h3 = destroy_packaged_task task' h2;
                h4 = destroy_packaged_task task h3
            in \<lparr>sr_future = fut, sr_started = None, sr_pool = p, sr_heap = h4\<rparr>)
         else
           (let p1 = queue_emplace (Wrapper task) p;
                p2 = task_inc p1;
                p3 = notify_all queueNotEmpty p2
            in if poolMode p3 = MODE_CACHED
                  \<and> idleThreadSize p3 < taskSize p3
                  \<and> length (threadsMap p3) < maxThreadSize p3
               then \<lparr>sr_future = result, sr_started = Some new_id,
                      sr_pool = idle_inc (thread_start new_id (map_emplace new_id p3)),
                      sr_heap = h1\<rparr>
               else \<lparr>sr_future = result, sr_started = None, sr_pool = p3, sr_heap = h1\<rparr>))"

section \<open>threadFunc (threadpool.cpp)\<close>

text \<open>
  A worker thread is at one of these places of \<^verbatim>\<open>threadFunc\<close>: at its entry; about to
  evaluate the \<^verbatim>\<open>while (taskQueue_.size() == 0)\<close> condition with the lock held; blocked
  in the timed wait of Cached mode or in the untimed wait of Fixed mode (the lock
  released, so that other threads run meanwhile); executing a task outside the lock; or
  returned. Its local variable is \<^verbatim>\<open>threadLastWorkTime\<close>, a clock reading in ticks.
\<close>

datatype 'r location = Entry | LoopHead | CachedWait | FixedWait | Executing "'r Task" | Returned

record 'r worker =
  pc :: "'r location"
  threadLastWorkTime :: int

text \<open>
  What the environment supplies to a step of a worker: the \<^verbatim>\<open>cv_status\<close> with which a
  timed wait returns, and the reading of \<^verbatim>\<open>high_resolution_clock::now()\<close>.
\<close>

record env =
  wait_result :: cv_status
  clock_now :: int

text \<open>
  \<^verbatim>\<open>duration_cast<seconds>\<close> of a difference of clock readings truncates towards zero;
  the clock ticks in nanoseconds.
\<close>

definition ticks_per_second :: int where
  "ticks_per_second = 1000000000"

definition duration_cast_seconds :: "int \<Rightarrow> int" where
  "duration_cast_seconds d =
     (if 0 \<le> d then d div ticks_per_second else - ((- d) div ticks_per_second))"

text \<open>
  Lines 76 to 86: the queue is not empty and the lock is held. The worker takes the task
  at the head and goes on to execute it.
\<close>

definition take_task :: "'r worker \<Rightarrow> 'r ThreadPool \<Rightarrow> 'r worker \<times> 'r ThreadPool" where
  "take_task w p =
     (let p1 = idle_dec p;
          task = queue_front p1;
          p2 = queue_pop p1;
          p3 = task_dec p2;
          p4 = notify_all queueNotFull p3;
          p5 = (if taskQueue p4 \<noteq> [] then notify_all queueNotEmpty p4 else p4)
      in (w\<lparr>pc := Executing task\<rparr>, p5))"

text \<open>
  One evaluation of the \<^verbatim>\<open>while\<close> condition with the lock held, up to the next wait,
  return or task (lines 43 to 53 and 70 to 86).
\<close>

definition loop_head :: "nat \<Rightarrow> 'r worker \<Rightarrow> 'r ThreadPool \<Rightarrow> 'r worker \<times> 'r ThreadPool" where
  "loop_head threadId w p =
     (if length (taskQueue p) = 0 then
        (if \<not> isPoolRunning p then
           (w\<lparr>pc := Returned\<rparr>, notify_all waitForWorkFinished (map_erase threadId p))
         else if poolMode p = MODE_CACHED then (w\<lparr>pc := CachedWait\<rparr>, p)
         else if poolMode p = MODE_FIXED then (w\<lparr>pc := FixedWait\<rparr>, p)
         else (w\<lparr>pc := LoopHead\<rparr>, p))
      else take_task w p)"

text \<open>
  Lines 55 to 69: \<^verbatim>\<open>wait_for\<close> has returned and the lock is held again; \<open>p\<close> is the pool
  as the other threads have left it. On a timeout the idle time is compared with
  \<^verbatim>\<open>maxThreadFreeTime_\<close> (the signed count of seconds converted to \<^verbatim>\<open>size_t\<close>) and
  the thread retires or goes round the \<^verbatim>\<open>while\<close> loop again.
\<close>

definition cached_wakeup :: "env \<Rightarrow> nat \<Rightarrow> 'r worker \<Rightarrow> 'r ThreadPool \<Rightarrow> 'r worker \<times> 'r ThreadPool" where
  "cached_wakeup e threadId w p =
     (if wait_result e = timeout then
        (let now = clock_now e;
             dur = duration_cast_seconds (now - threadLastWorkTime w)
         in if maxThreadFreeTime p \<le> size_t_of_int dur
               \<and> initThreadSize p < length (threadsMap p)
            then (w\<lparr>pc := Returned\<rparr>, idle_dec (map_erase threadId (idle_dec p)))
            else loop_head threadId w p)
      else loop_head threadId w p)"

text \<open>Lines 88 to 94: the task runs outside the lock, then the thread is idle again.\<close>

definition execute_task ::
  "env \<Rightarrow> 'r Task \<Rightarrow> 'r worker \<Rightarrow> 'r ThreadPool \<Rightarrow> 'r heap \<Rightarrow> 'r worker \<times> 'r ThreadPool \<times> 'r heap" where
  "execute_task e task w p h =
     (w\<lparr>pc := LoopHead, threadLastWorkTime := clock_now e\<rparr>,
      idle_inc p,
      release_task task (run_task task h))"

text \<open>
  One atomic step of the thread \<open>threadId\<close>: from its place to the next place at which
  it releases the lock or has finished a task.
\<close>

definition threadFunc_step ::
  "env \<Rightarrow> nat \<Rightarrow> 'r worker \<Rightarrow> 'r ThreadPool \<Rightarrow> 'r heap \<Rightarrow> 'r worker \<times> 'r ThreadPool \<times> 'r heap" where
  "threadFunc_step e threadId w p h =
     (case pc w of
        Entry \<Rightarrow> (w\<lparr>pc := LoopHead, threadLastWorkTime := clock_now e\<rparr>, p, h)
      | LoopHead \<Rightarrow> (fst (loop_head threadId w p), snd (loop_head threadId w p), h)
      | CachedWait \<Rightarrow> (fst (cached_wakeup e threadId w p), snd (cached_wakeup e threadId w p), h)
      | FixedWait \<Rightarrow> (fst (loop_head threadId w p), snd (loop_head threadId w p), h)
      | Executing task \<Rightarrow> execute_task e task w p h
      | Returned \<Rightarrow> (w, p, h))"

section \<open>start and the destructor (threadpool.cpp)\<close>

text \<open>
  \<open>start initThreadSize ids p\<close>, where \<open>ids\<close> are the ids of the \<^verbatim>\<open>Thread\<close> objects the
  first loop creates. The second loop starts \<^verbatim>\<open>threadsMap_[i]\<close> for
  \<open>i = 0, ..., initThreadSize - 1\<close>; the call has no defined result (\<open>None\<close>) when
  \<open>initThreadSize\<close> is negative or one of these keys is not in the map.
\<close>

definition start :: "int \<Rightarrow> nat list \<Rightarrow> 'r ThreadPool \<Rightarrow> 'r ThreadPool option" where
  "start initThreadSize' ids p =
     (let p1 = p\<lparr>isPoolRunning := True, initThreadSize := size_t_of_int initThreadSize'\<rparr>;
          p2 = fold map_emplace ids p1
      in if 0 \<le> initThreadSize' \<and> length ids = nat initThreadSize'
            \<and> list_all (\<lambda>i. i \<in> set (threadsMap p2)) [0..<nat initThreadSize']
         then Some (fold (\<lambda>i q. idle_inc (thread_start i q)) [0..<nat initThreadSize'] p2)
         else None)"

text \<open>
  The destructor up to its final wait: it clears the running flag and wakes every
  worker. It then blocks until \<^verbatim>\<open>threadsMap_\<close> is empty.
\<close>

definition destructor_begin :: "'r ThreadPool \<Rightarrow> 'r ThreadPool" where
  "destructor_begin p = notify_all queueNotEmpty (p\<lparr>isPoolRunning := False\<rparr>)"

definition destructor_may_return :: "'r ThreadPool \<Rightarrow> bool" where
  "destructor_may_return p = (length (threadsMap p) = 0)"

section \<open>The pool with its threads\<close>

text \<open>
  The pool, the heap of shared states and the worker threads that have been started,
  each with the id it was started with. The calls of the public interface and the
  steps of the workers interleave; each is one event.
\<close>

record 'r machine =
  pool :: "'r ThreadPool"
  heap :: "'r heap"
  threads :: "(nat \<times> 'r worker) list"

datatype 'r event =
    Submit "unit \<Rightarrow> 'r" nat
  | WorkerStep nat env
  | SetMode PoolMode
  | SetMaxThreadSize int
  | SetMaxThreadFreeTime nat
  | SetTaskQueueMaxSize int
  | Start int "nat list"
  | Destroy

definition new_machine :: "'r machine" where
  "new_machine = \<lparr>pool = new_ThreadPool, heap = [], threads = []\<rparr>"

definition spawn :: "nat \<Rightarrow> (nat \<times> 'r worker) list \<Rightarrow> (nat \<times> 'r worker) list" where
  "spawn tid ts = ts @ [(tid, \<lparr>pc = Entry, threadLastWorkTime = 0\<rparr>)]"

text \<open>
  \<open>Submit f new_id\<close> is a call \<^verbatim>\<open>submitTask(f)\<close> of a callable without arguments;
  \<open>WorkerStep k e\<close> is a step of the \<open>k\<close>-th thread started. A call of \<open>start\<close> that
  has no defined result is not taken.
\<close>

definition after_submit :: "'r submit_result \<Rightarrow> 'r machine \<Rightarrow> 'r machine" where
  "after_submit r m =
     m\<lparr>pool := sr_pool r, heap := sr_heap r,
       threads := (case sr_started r of None \<Rightarrow> threads m
                   | Some tid \<Rightarrow> spawn tid (threads m))\<rparr>"

definition machine_step :: "'r \<Rightarrow> 'r event \<Rightarrow> 'r machine \<Rightarrow> 'r machine" where
  "machine_step dflt ev m =
     (case ev of
        Submit f new_id \<Rightarrow>
          after_submit (submitTask dflt f () new_id (pool m) (heap m)) m
      | WorkerStep k e \<Rightarrow>
          (if k < length (threads m) then
             (let tid = fst (threads m ! k);
                  r = threadFunc_step e tid (snd (threads m ! k)) (pool m) (heap m)
              in m\<lparr>pool := fst (snd r), heap := snd (snd r),
                   threads := (threads m)[k := (tid, fst r)]\<rparr>)
           else m)
      | SetMode mode \<Rightarrow> m\<lparr>pool := setMode mode (pool m)\<rparr>
      | SetMaxThreadSize n \<Rightarrow> m\<lparr>pool := setMaxThreadSize n (pool m)\<rparr>
      | SetMaxThreadFreeTime t \<Rightarrow> m\<lparr>pool := setMaxThreadFreeTime t (pool m)\<rparr>
      | SetTaskQueueMaxSize n \<Rightarrow> m\<lparr>pool := setTaskQueueMaxSize n (pool m)\<rparr>
      | Start n ids \<Rightarrow>
          (case start n ids (pool m) of
             None \<Rightarrow> m
           | Some p \<Rightarrow> m\<lparr>pool := p, threads := fold spawn [0..<nat n] (threads m)\<rparr>)
      | Destroy \<Rightarrow> m\<lparr>pool := destructor_begin (pool m)\<rparr>)"

definition run :: "'r \<Rightarrow> 'r event list \<Rightarrow> 'r machine \<Rightarrow> 'r machine" where
  "run dflt evs m = fold (machine_step dflt) evs m"

section \<open>Notions used in the statements\<close>

text \<open>
  \<^verbatim>\<open>dur.count()\<close> of line 57: the whole seconds from \<^verbatim>\<open>threadLastWorkTime\<close> to the
  clock reading \<^verbatim>\<open>now\<close>, a signed number. It is the time the worker has been idle only
  when the clock has not been set back in between; otherwise it can be negative.
\<close>

definition dur_count :: "'r worker \<Rightarrow> env \<Rightarrow> int" where
  "dur_count w e = duration_cast_seconds (clock_now e - threadLastWorkTime w)"

text \<open>
  The condition of line 58 under which a worker retires after a timed-out wait, as the
  code evaluates it: \<^verbatim>\<open>dur.count()\<close> is converted to \<^verbatim>\<open>size_t\<close> for the comparison with
  \<^verbatim>\<open>maxThreadFreeTime_\<close>.
\<close>

definition retire_condition :: "env \<Rightarrow> 'r worker \<Rightarrow> 'r ThreadPool \<Rightarrow> bool" where
  "retire_condition e w p =
     (wait_result e = timeout
      \<and> maxThreadFreeTime p \<le> size_t_of_int (dur_count w e)
      \<and> initThreadSize p < length (threadsMap p))"

text \<open>The tasks pushed to and popped from the queue, in the order of the log.\<close>

fun pushes :: "'r action list \<Rightarrow> 'r Task list" where
  "pushes [] = []"
| "pushes (QueuePush t # as) = t # pushes as"
| "pushes (a # as) = pushes as"

fun pops :: "'r action list \<Rightarrow> 'r Task list" where
  "pops [] = []"
| "pops (QueuePop t # as) = t # pops as"
| "pops (a # as) = pops as"

text \<open>The queue respects its bound.\<close>

definition queue_bounded :: "'r ThreadPool \<Rightarrow> bool" where
  "queue_bounded p = (length (taskQueue p) \<le> taskQueueMaxSize p)"

text \<open>
  An event keeps the bound at or above the current queue length: every event does,
  except a call of \<open>setTaskQueueMaxSize\<close> that takes effect (pool stopped, Cached mode)
  with a value below the number of tasks queued.
\<close>

definition keeps_bound :: "'r event \<Rightarrow> 'r machine \<Rightarrow> bool" where
  "keeps_bound ev m =
     (case ev of
        SetTaskQueueMaxSize n \<Rightarrow>
          isPoolRunning (pool m) \<or> poolMode (pool m) = MODE_FIXED
          \<or> length (taskQueue (pool m)) \<le> size_t_of_int n
      | _ \<Rightarrow> True)"

fun run_keeps_bound :: "'r \<Rightarrow> 'r event list \<Rightarrow> 'r machine \<Rightarrow> bool" where
  "run_keeps_bound dflt [] m = True"
| "run_keeps_bound dflt (ev # evs) m =
     (keeps_bound ev m \<and> run_keeps_bound dflt evs (machine_step dflt ev m))"

text \<open>
  The tasks that are queued or being executed by a worker, and the shared states they
  refer to. In a well-formed machine all of these have been allocated.
\<close>

definition task_ref :: "'r Task \<Rightarrow> nat list" where
  "task_ref task = (case task of NullTask \<Rightarrow> [] | Wrapper t \<Rightarrow> [state_ref t])"

definition executing :: "'r worker \<Rightarrow> 'r Task list" where
  "executing w = (case pc w of Executing task \<Rightarrow> [task] | _ \<Rightarrow> [])"

definition live_tasks :: "'r machine \<Rightarrow> 'r Task list" where
  "live_tasks m = taskQueue (pool m) @ concat (map (\<lambda>tw. executing (snd tw)) (threads m))"

definition pending_refs :: "'r machine \<Rightarrow> nat list" where
  "pending_refs m = concat (map task_ref (live_tasks m))"

definition machine_ok :: "'r machine \<Rightarrow> bool" where
  "machine_ok m = list_all (\<lambda>r. r < length (heap m)) (pending_refs m)"

text \<open>Environments of worker steps: a wake-up without timeout, and a time-out.\<close>

definition woken :: "int \<Rightarrow> env" where
  "woken c = \<lparr>wait_result = no_timeout, clock_now = c\<rparr>"

definition timed_out :: "int \<Rightarrow> env" where
  "timed_out c = \<lparr>wait_result = timeout, clock_now = c\<rparr>"

text \<open>
  What the invariants of the queue look at: the tasks popped so far, the queue, the
  tasks pushed so far, and the bound. Tasks leave the queue in the order in which they
  entered it when the tasks popped, followed by the queue, are the tasks pushed.
\<close>

definition queue_view :: "'r ThreadPool \<Rightarrow> 'r Task list \<times> 'r Task list \<times> 'r Task list \<times> nat" where
  "queue_view p = (pops (oplog p), taskQueue p, pushes (oplog p), taskQueueMaxSize p)"

definition fifo :: "'r ThreadPool \<Rightarrow> bool" where
  "fifo p = (pops (oplog p) @ taskQueue p = pushes (oplog p))"

text \<open>
  The live tasks as a multiset, and the invariant that follows one future \<open>fut\<close> whose
  task computes \<open>v\<close>: as long as a live task refers to the shared state there is exactly
  one and the state is not ready; afterwards the state is ready with \<open>v\<close>.
\<close>

definition live :: "'r machine \<Rightarrow> 'r Task multiset" where
  "live m = mset (live_tasks m)"

definition refers :: "nat \<Rightarrow> 'r Task \<Rightarrow> bool" where
  "refers fut task = (fut \<in> set (task_ref task))"

definition awaiting :: "nat \<Rightarrow> 'r \<Rightarrow> 'r machine \<Rightarrow> bool" where
  "awaiting fut v m =
     (fut < length (heap m)
      \<and> (\<forall>t \<in># live m. \<forall>r \<in> set (task_ref t). r < length (heap m))
      \<and> (\<forall>pt. Wrapper pt \<in># live m \<and> state_ref pt = fut \<longrightarrow> stored pt () = v)
      \<and> (if \<exists>t \<in># live m. refers fut t
          then size (filter_mset (refers fut) (live m)) = 1 \<and> heap m ! fut = NotReady
          else heap m ! fut = Ready v))"

section \<open>Scenarios\<close>

text \<open>
  Concrete runs of a pool of tasks that return \<^verbatim>\<open>int\<close>, from the constructor on.
  Clock readings are in nanoseconds.

  A Cached pool with queue bound 1 and one worker that has not yet looked at the queue;
  one task is queued, so the queue is full.
\<close>

definition full_queue_scenario :: "int event list" where
  "full_queue_scenario =
     [SetMode MODE_CACHED, SetTaskQueueMaxSize 1, Start 1 [0], Submit (\<lambda>_. 7) 1]"

text \<open>
  Two tasks are submitted to a pool that has not been started; then the pool is switched
  to Cached mode and the queue bound is set to 1.
\<close>

definition lowered_bound_scenario :: "int event list" where
  "lowered_bound_scenario =
     [Submit (\<lambda>_. 1) 0, Submit (\<lambda>_. 2) 0, SetMode MODE_CACHED, SetTaskQueueMaxSize 1]"

text \<open>
  A Cached pool started with one worker. The first task goes to worker 0; the second is
  submitted while worker 0 is busy, so a second worker (id 1) is created for it. Both
  finish after one second and wait for work.
\<close>

definition two_idle_workers :: "int event list" where
  "two_idle_workers =
     [SetMode MODE_CACHED, Start 1 [0],
      WorkerStep 0 (woken 0), WorkerStep 0 (woken 0),
      Submit (\<lambda>_. 1 + 2) 1,
      WorkerStep 0 (woken 0),
      Submit (\<lambda>_. 1 + 2 + 3) 1,
      WorkerStep 1 (woken 0), WorkerStep 1 (woken 0),
      WorkerStep 0 (woken 1000000000), WorkerStep 1 (woken 1000000000),
      WorkerStep 0 (woken 1000000000), WorkerStep 1 (woken 1000000000)]"

text \<open>
  Then, 60 seconds later, a task is submitted at the moment the timed wait of worker 1
  expires: the submitter gets the lock first and enqueues, and the wait of worker 1
  returns \<^verbatim>\<open>timeout\<close>.
\<close>

definition retire_race_scenario :: "int event list" where
  "retire_race_scenario =
     two_idle_workers @ [Submit (\<lambda>_. 4) 2, WorkerStep 1 (timed_out 61000000000)]"

text \<open>
  The same race in a Cached pool started with no worker (\<^verbatim>\<open>start(0)\<close>): the only
  worker, created for the first task, retires while the second task is queued.
\<close>

definition abandoned_task_scenario :: "int event list" where
  "abandoned_task_scenario =
     [SetMode MODE_CACHED, Start 0 [],
      Submit (\<lambda>_. 1) 0,
      WorkerStep 0 (woken 0), WorkerStep 0 (woken 0),
      WorkerStep 0 (woken 1000000000), WorkerStep 0 (woken 1000000000),
      Submit (\<lambda>_. 2) 1,
      WorkerStep 0 (timed_out 61000000000)]"

text \<open>
  After \<open>two_idle_workers\<close>: worker 1 retires after 60 idle seconds; a third task makes
  the pool create worker 2 while worker 0 takes the task; worker 2 finds nothing to do
  and retires after 60 idle seconds of its own. Worker 0 is waiting for work at the end.
\<close>

definition negative_idle_scenario :: "int event list" where
  "negative_idle_scenario =
     two_idle_workers @
     [WorkerStep 1 (timed_out 61000000000),
      Submit (\<lambda>_. 4) 2,
      WorkerStep 0 (woken 61000000000), WorkerStep 0 (woken 62000000000),
      WorkerStep 2 (woken 62000000000), WorkerStep 2 (woken 62000000000),
      WorkerStep 0 (woken 62000000000),
      WorkerStep 2 (timed_out 123000000000)]"

text \<open>
  Then a fourth task is submitted and taken by worker 0, the only worker left, which is
  executing it at the end: no worker is idle.
\<close>

definition busy_worker_scenario :: "int event list" where
  "busy_worker_scenario =
     negative_idle_scenario @ [Submit (\<lambda>_. 5) 3, WorkerStep 0 (woken 123000000000)]"

text \<open>
  The run of \<open>two_idle_workers\<close> with the two tasks finishing when the clock reads 100
  seconds: both workers go into their timed wait, idle since then.
\<close>

definition idle_since_100s :: "int event list" where
  "idle_since_100s =
     [SetMode MODE_CACHED, Start 1 [0],
      WorkerStep 0 (woken 0), WorkerStep 0 (woken 0),
      Submit (\<lambda>_. 1 + 2) 1,
      WorkerStep 0 (woken 0),
      Submit (\<lambda>_. 1 + 2 + 3) 1,
      WorkerStep 1 (woken 0), WorkerStep 1 (woken 0),
      WorkerStep 0 (woken 100000000000), WorkerStep 1 (woken 100000000000),
      WorkerStep 0 (woken 100000000000), WorkerStep 1 (woken 100000000000)]"

text \<open>
  The first one-second wait of worker 1 times out; the clock has been set back by ten
  seconds meanwhile and reads 91 seconds.
\<close>

definition clock_set_back_scenario :: "int event list" where
  "clock_set_back_scenario = idle_since_100s @ [WorkerStep 1 (timed_out 91000000000)]"

text \<open>A Fixed pool started with two workers, both waiting for work.\<close>

definition two_fixed_workers :: "int event list" where
  "two_fixed_workers =
     [Start 2 [0, 1],
      WorkerStep 0 (woken 0), WorkerStep 1 (woken 0),
      WorkerStep 0 (woken 0), WorkerStep 1 (woken 0)]"

text \<open>
  The example of the README on that pool: \<^verbatim>\<open>add1(1, 2)\<close> and \<^verbatim>\<open>add2(1, 2, 3)\<close> are
  submitted, each worker takes one and runs it.
\<close>

definition end_to_end_example :: "int event list" where
  "end_to_end_example =
     two_fixed_workers @
     [Submit (\<lambda>_. 1 + 2) 2, Submit (\<lambda>_. 1 + 2 + 3) 2,
      WorkerStep 0 (woken 0), WorkerStep 1 (woken 0),
      WorkerStep 1 (woken 5), WorkerStep 0 (woken 6)]"

text \<open>
  A running Cached pool with queue bound 1 and one worker. On it: a task is accepted, a
  second submission times out, the worker takes the task, a late
  \<open>setTaskQueueMaxSize\<close> is ignored, and another task is accepted.
\<close>

definition bounded_start :: "int machine" where
  "bounded_start = run 0 [SetMode MODE_CACHED, SetTaskQueueMaxSize 1, Start 1 [0]] new_machine"

definition bounded_run_example :: "int event list" where
  "bounded_run_example =
     [Submit (\<lambda>_. 7) 1, Submit (\<lambda>_. 8) 1,
      WorkerStep 0 (woken 0), WorkerStep 0 (woken 0),
      SetTaskQueueMaxSize 0, Submit (\<lambda>_. 9) 1]"

text \<open>
  The pool after \<open>two_idle_workers\<close>, and its worker 1, which is in the timed wait and
  has been idle since the clock read one second.
\<close>

definition idle_pool :: "int ThreadPool" where
  "idle_pool = pool (run 0 two_idle_workers new_machine)"

definition idle_worker :: "int worker" where
  "idle_worker = snd (threads (run 0 two_idle_workers new_machine) ! 1)"

section \<open>Configuration setters\<close>

text \<open>
  Claim C9. Once the pool is running (\<open>isPoolRunning\<close> is true), each of the four
  configuration setters returns the pool exactly as it was: the mode, the maximum
  thread count, the idle timeout, the queue bound and every other member are unchanged.
\<close>

theorem setters_rejected_when_running:
  assumes "isPoolRunning p"
  shows "setMode mode p = p
     \<and> setMaxThreadSize n p = p
     \<and> setMaxThreadFreeTime t p = p
     \<and> setTaskQueueMaxSize m p = p"
  using assms
  by (simp add: setMode_def setMaxThreadSize_def setMaxThreadFreeTime_def
      setTaskQueueMaxSize_def isRunningState_def)

theorem setters_rejected_when_running_witness:
  "isPoolRunning ((new_ThreadPool :: int ThreadPool)\<lparr>isPoolRunning := True\<rparr>)
   \<and> setMode MODE_CACHED ((new_ThreadPool :: int ThreadPool)\<lparr>isPoolRunning := True\<rparr>)
       = new_ThreadPool\<lparr>isPoolRunning := True\<rparr>
   \<and> poolMode (setMode MODE_CACHED ((new_ThreadPool :: int ThreadPool)\<lparr>isPoolRunning := True\<rparr>))
       = MODE_FIXED
   \<and> maxThreadSize (setMaxThreadSize 8 ((new_ThreadPool :: int ThreadPool)\<lparr>isPoolRunning := True\<rparr>))
       = 1024
   \<and> maxThreadFreeTime (setMaxThreadFreeTime 5 ((new_ThreadPool :: int ThreadPool)\<lparr>isPoolRunning := True\<rparr>))
       = 60
   \<and> taskQueueMaxSize (setTaskQueueMaxSize 2 ((new_ThreadPool :: int ThreadPool)\<lparr>isPoolRunning := True\<rparr>))
       = 2147483647"
proof -
  have run: "isPoolRunning ((new_ThreadPool :: int ThreadPool)\<lparr>isPoolRunning := True\<rparr>)"
    by simp
  show ?thesis
    using setters_rejected_when_running [OF run, of MODE_CACHED 8 5 2]
    by (simp add: new_ThreadPool_def size_t_of_int_def THREAD_MAX_SIZE_def TASK_MAX_SIZE_def)
qed

text \<open>
  Claim C10. While the pool is stopped and still in the default Fixed mode,
  \<open>setTaskQueueMaxSize\<close> and \<open>setMaxThreadFreeTime\<close> leave the pool unchanged, so
  that on a freshly constructed pool the queue bound stays \<open>INT32_MAX\<close> and the idle
  timeout stays 60 seconds; in Cached mode both take effect. \<open>setMaxThreadSize\<close>
  takes effect on a stopped pool in either mode.
\<close>

theorem mode_gated_setters:
  assumes "\<not> isPoolRunning (p :: 'r ThreadPool)"
  shows "(poolMode p = MODE_FIXED \<longrightarrow>
            setTaskQueueMaxSize m p = p \<and> setMaxThreadFreeTime t p = p)
     \<and> (poolMode p = MODE_CACHED \<longrightarrow>
            setTaskQueueMaxSize m p = p\<lparr>taskQueueMaxSize := size_t_of_int m\<rparr>
            \<and> setMaxThreadFreeTime t p = p\<lparr>maxThreadFreeTime := t\<rparr>)
     \<and> setMaxThreadSize n p = p\<lparr>maxThreadSize := size_t_of_int n\<rparr>
     \<and> taskQueueMaxSize (setTaskQueueMaxSize m (new_ThreadPool :: 'r ThreadPool)) = 2147483647
     \<and> maxThreadFreeTime (setMaxThreadFreeTime t (new_ThreadPool :: 'r ThreadPool)) = 60"
  using assms
  by (simp add: setTaskQueueMaxSize_def setMaxThreadFreeTime_def setMaxThreadSize_def
      isRunningState_def new_ThreadPool_def size_t_of_int_def TASK_MAX_SIZE_def)

theorem mode_gated_setters_witness:
  "\<not> isPoolRunning (new_ThreadPool :: int ThreadPool)
   \<and> poolMode (new_ThreadPool :: int ThreadPool) = MODE_FIXED
   \<and> setTaskQueueMaxSize 10 (new_ThreadPool :: int ThreadPool) = new_ThreadPool
   \<and> taskQueueMaxSize (setTaskQueueMaxSize 10 (new_ThreadPool :: int ThreadPool)) = 2147483647
   \<and> setMaxThreadFreeTime 5 (new_ThreadPool :: int ThreadPool) = new_ThreadPool
   \<and> maxThreadFreeTime (setMaxThreadFreeTime 5 (new_ThreadPool :: int ThreadPool)) = 60
   \<and> maxThreadSize (setMaxThreadSize 8 (new_ThreadPool :: int ThreadPool)) = 8
   \<and> taskQueueMaxSize (setTaskQueueMaxSize 10 (setMode MODE_CACHED (new_ThreadPool :: int ThreadPool)))
       = 10
   \<and> maxThreadFreeTime (setMaxThreadFreeTime 5 (setMode MODE_CACHED (new_ThreadPool :: int ThreadPool)))
       = 5
   \<and> maxThreadSize (setMaxThreadSize 8 (setMode MODE_CACHED (new_ThreadPool :: int ThreadPool))) = 8"
proof -
  have stopped: "\<not> isPoolRunning (new_ThreadPool :: int ThreadPool)"
    by (simp add: new_ThreadPool_def)
  have fixed: "poolMode (new_ThreadPool :: int ThreadPool) = MODE_FIXED"
    by (simp add: new_ThreadPool_def)
  have stopped': "\<not> isPoolRunning (setMode MODE_CACHED (new_ThreadPool :: int ThreadPool))"
    by (simp add: new_ThreadPool_def setMode_def isRunningState_def)
  have cached: "poolMode (setMode MODE_CACHED (new_ThreadPool :: int ThreadPool)) = MODE_CACHED"
    by (simp add: new_ThreadPool_def setMode_def isRunningState_def)
  have conv: "size_t_of_int 10 = 10" "size_t_of_int 8 = 8"
    by (simp_all add: size_t_of_int_def)
  show ?thesis
    using mode_gated_setters [OF stopped, of 10 5 8]
      mode_gated_setters [OF stopped', of 10 5 8] stopped fixed cached
    by (simp add: conv)
qed

section \<open>Evaluation\<close>

lemmas prim_defs = log_op_def notify_all_def idle_inc_def idle_dec_def task_inc_def task_dec_def
  queue_emplace_def queue_front_def queue_pop_def map_emplace_def map_erase_def thread_start_def

lemmas heap_defs = make_packaged_task_def get_future_def invoke_def destroy_packaged_task_def
  run_task_def release_task_def future_get_def

lemma upt_0_2: "[0..<2] = [0, Suc 0]"
  by (simp add: upt_rec)

lemmas eval_defs = run_def machine_step_def after_submit_def new_machine_def new_ThreadPool_def
  submitTask_def threadFunc_step_def loop_head_def cached_wakeup_def take_task_def execute_task_def
  start_def destructor_begin_def setMode_def setMaxThreadSize_def setMaxThreadFreeTime_def
  setTaskQueueMaxSize_def isRunningState_def size_t_of_int_def THREAD_MAX_SIZE_def TASK_MAX_SIZE_def
  spawn_def duration_cast_seconds_def ticks_per_second_def woken_def timed_out_def Let_def
  upt_0_2 prim_defs heap_defs

lemma run_append: "run dflt (xs @ ys) m = run dflt ys (run dflt xs m)"
  by (simp add: run_def)

lemma idle_pool_fields:
  "threadsMap idle_pool = [0, 1] \<and> initThreadSize idle_pool = 1
   \<and> maxThreadFreeTime idle_pool = 60 \<and> idleThreadSize idle_pool = 2
   \<and> taskQueue idle_pool = [] \<and> poolMode idle_pool = MODE_CACHED
   \<and> isPoolRunning idle_pool"
  by (simp add: idle_pool_def two_idle_workers_def eval_defs)

lemma idle_worker_fields:
  "idle_worker = \<lparr>pc = CachedWait, threadLastWorkTime = 1000000000\<rparr>"
  by (simp add: idle_worker_def two_idle_workers_def eval_defs)

lemma idle_worker_retires:
  "retire_condition (timed_out 61000000000) idle_worker idle_pool
   \<and> \<not> retire_condition (timed_out 31000000000) idle_worker idle_pool
   \<and> \<not> retire_condition (woken 61000000000) idle_worker idle_pool"
  by (simp add: retire_condition_def dur_count_def idle_pool_fields idle_worker_fields
      duration_cast_seconds_def ticks_per_second_def size_t_of_int_def woken_def timed_out_def)

section \<open>The idle time\<close>

text \<open>
  When the clock has not run backwards since the worker last finished a task,
  \<^verbatim>\<open>dur.count()\<close> is the number of whole seconds elapsed and its conversion to
  \<^verbatim>\<open>size_t\<close> changes nothing.
\<close>

lemma dur_count_elapsed:
  assumes "threadLastWorkTime w \<le> clock_now e"
    and "clock_now e - threadLastWorkTime w < 2 ^ 63"
  shows "dur_count w e = (clock_now e - threadLastWorkTime w) div 1000000000
     \<and> 0 \<le> dur_count w e
     \<and> size_t_of_int (dur_count w e) = nat (dur_count w e)"
proof -
  let ?d = "clock_now e - threadLastWorkTime w"
  from assms(1) have nonneg: "0 \<le> ?d" by simp
  then have "0 \<le> ?d div 1000000000" by simp
  moreover from zdiv_mono2 [of ?d 1 1000000000] nonneg have "?d div 1000000000 \<le> ?d"
    by simp
  with assms(2) have "?d div 1000000000 < 2 ^ 64"
    by simp
  ultimately have "(?d div 1000000000) mod 2 ^ 64 = ?d div 1000000000"
    by simp
  with nonneg show ?thesis
    by (simp add: dur_count_def size_t_of_int_def duration_cast_seconds_def
        ticks_per_second_def)
qed

section \<open>A submission that times out\<close>

text \<open>
  Claim C1. If the queue is still full when the one-second wait of \<open>submitTask\<close> ends,
  the call does not throw and leaves the pool exactly as it was: the task is not
  enqueued, the task counter is not incremented, no thread is started. The future it
  returns, however, does not yield the default-constructed value: its packaged task is
  destroyed without ever being called, so that \<^verbatim>\<open>get()\<close> on the future throws
  \<^verbatim>\<open>broken_promise\<close>.
\<close>

theorem submitTask_timeout:
  assumes "\<not> length (taskQueue p) < taskQueueMaxSize p"
  shows "sr_pool (submitTask dflt func args new_id p h) = p
     \<and> sr_started (submitTask dflt func args new_id p h) = None
     \<and> future_get (sr_heap (submitTask dflt func args new_id p h))
          (sr_future (submitTask dflt func args new_id p h)) = Throws broken_promise"
  using assms
  by (simp add: submitTask_def heap_defs Let_def nth_append)

theorem submitTask_timeout_witness:
  "\<not> length (taskQueue (pool (run 0 full_queue_scenario new_machine)))
       < taskQueueMaxSize (pool (run 0 full_queue_scenario new_machine))
   \<and> sr_pool (submitTask 0 (\<lambda>x. x + 1) 41 2
        (pool (run 0 full_queue_scenario new_machine))
        (heap (run 0 full_queue_scenario new_machine)))
       = pool (run 0 full_queue_scenario new_machine)
   \<and> future_get
        (sr_heap (submitTask 0 (\<lambda>x. x + 1) 41 2
          (pool (run 0 full_queue_scenario new_machine))
          (heap (run 0 full_queue_scenario new_machine))))
        (sr_future (submitTask 0 (\<lambda>x. x + 1) 41 2
          (pool (run 0 full_queue_scenario new_machine))
          (heap (run 0 full_queue_scenario new_machine))))
       = Throws broken_promise
   \<and> future_get
        (sr_heap (submitTask 0 (\<lambda>x. x + 1) 41 2
          (pool (run 0 full_queue_scenario new_machine))
          (heap (run 0 full_queue_scenario new_machine))))
        (sr_future (submitTask 0 (\<lambda>x. x + 1) 41 2
          (pool (run 0 full_queue_scenario new_machine))
          (heap (run 0 full_queue_scenario new_machine))))
       \<noteq> Returns (0 :: int)"
proof -
  have full: "\<not> length (taskQueue (pool (run 0 full_queue_scenario new_machine)))
       < taskQueueMaxSize (pool (run 0 full_queue_scenario new_machine))"
    by (simp add: full_queue_scenario_def eval_defs)
  show ?thesis
    using full submitTask_timeout [OF full, of 0 "\<lambda>x. x + 1" 41 2
        "heap (run 0 full_queue_scenario new_machine)"]
    by simp
qed

section \<open>Growth of the pool in submitTask\<close>

text \<open>
  What \<open>submitTask\<close> does about growth: it starts a thread exactly when the task was
  accepted, the mode is Cached, the idle counter is below the task counter (after its
  increment) in the unsigned 32-bit order, and the map holds fewer than
  \<open>maxThreadSize\<close> threads. It starts at most one thread, and the number of threads
  does not pass \<open>maxThreadSize\<close> this way.
\<close>

lemma submitTask_growth:
  "(sr_started (submitTask dflt func args new_id p h) = Some new_id)
     = (length (taskQueue p) < taskQueueMaxSize p \<and> poolMode p = MODE_CACHED
        \<and> idleThreadSize p < taskSize p + 1 \<and> length (threadsMap p) < maxThreadSize p)
   \<and> (sr_started (submitTask dflt func args new_id p h) = None
       \<or> sr_started (submitTask dflt func args new_id p h) = Some new_id)
   \<and> length (threadsMap (sr_pool (submitTask dflt func args new_id p h)))
        \<le> Suc (length (threadsMap p))
   \<and> (length (threadsMap p) \<le> maxThreadSize p \<longrightarrow>
       length (threadsMap (sr_pool (submitTask dflt func args new_id p h))) \<le> maxThreadSize p)
   \<and> maxThreadSize (sr_pool (submitTask dflt func args new_id p h)) = maxThreadSize p"
  by (simp add: submitTask_def heap_defs prim_defs Let_def)

text \<open>
  Claim C4. \<open>submitTask\<close> should start a new worker if and only if the mode is Cached,
  the pending task count exceeds the idle-worker count and the worker count is below
  \<open>maxThreadSize\<close>. The code compares the two counters as unsigned numbers. At the end
  of \<open>busy_worker_scenario\<close> the only worker in the map is executing a task, so no
  worker is idle, and the idle counter reads \<open>-2\<close> (two workers have retired, each
  decrementing it twice). A submission then makes the pending count 1, which exceeds
  both the number of idle workers, 0, and the idle counter, in Cached mode and with 1 of
  at most 1024 workers; yet no worker is started, and the task waits for the busy worker.
\<close>

theorem growth_skipped_while_only_worker_busy:
  "poolMode (pool (run 0 busy_worker_scenario new_machine)) = MODE_CACHED
   \<and> isPoolRunning (pool (run 0 busy_worker_scenario new_machine))
   \<and> map (\<lambda>tw. pc (snd tw)) (threads (run 0 busy_worker_scenario new_machine))
       = [Executing (Wrapper (PackagedTask (\<lambda>_. 5) 3)), Returned, Returned]
   \<and> sint (idleThreadSize (pool (run 0 busy_worker_scenario new_machine))) = - 2
   \<and> taskQueue (pool (run 0 busy_worker_scenario new_machine)) = []
   \<and> uint (taskSize (pool (run 0 busy_worker_scenario new_machine))) = 0
   \<and> threadsMap (pool (run 0 busy_worker_scenario new_machine)) = [0]
   \<and> maxThreadSize (pool (run 0 busy_worker_scenario new_machine)) = 1024
   \<and> uint (taskSize (sr_pool (submitTask 0 (\<lambda>x. x + 1) 41 3
        (pool (run 0 busy_worker_scenario new_machine))
        (heap (run 0 busy_worker_scenario new_machine))))) = 1
   \<and> length (taskQueue (sr_pool (submitTask 0 (\<lambda>x. x + 1) 41 3
        (pool (run 0 busy_worker_scenario new_machine))
        (heap (run 0 busy_worker_scenario new_machine))))) = 1
   \<and> sr_started (submitTask 0 (\<lambda>x. x + 1) 41 3
        (pool (run 0 busy_worker_scenario new_machine))
        (heap (run 0 busy_worker_scenario new_machine))) = None
   \<and> threadsMap (sr_pool (submitTask 0 (\<lambda>x. x + 1) 41 3
        (pool (run 0 busy_worker_scenario new_machine))
        (heap (run 0 busy_worker_scenario new_machine)))) = [0]"
  by (simp add: busy_worker_scenario_def negative_idle_scenario_def two_idle_workers_def eval_defs)

section \<open>Retirement of idle workers in Cached mode\<close>

lemma length_removeAll_distinct:
  "distinct xs \<Longrightarrow> length xs - 1 \<le> length (removeAll x xs)"
  by (simp add: distinct_remove1_removeAll [symmetric] length_remove1)

lemma loop_head_running:
  assumes "isPoolRunning p"
  shows "pc (fst (loop_head tid w p)) \<noteq> Returned
     \<and> threadsMap (snd (loop_head tid w p)) = threadsMap p
     \<and> initThreadSize (snd (loop_head tid w p)) = initThreadSize p"
  using assms
  by (cases "poolMode p")
    (simp_all add: loop_head_def take_task_def prim_defs Let_def split: list.splits)

text \<open>
  What a worker of a running pool does when its timed wait has returned (the keys of the
  map being distinct): it leaves the loop and removes itself from the map if and only if
  \<open>retire_condition\<close> holds, and otherwise leaves the map as it is. So a worker count
  that is at least \<open>initThreadSize\<close> stays so.
\<close>

lemma cached_retire_step:
  assumes "pc w = CachedWait" and "isPoolRunning p" and "distinct (threadsMap p)"
  shows "(pc (fst (threadFunc_step e tid w p h)) = Returned) = retire_condition e w p
    \<and> threadsMap (fst (snd (threadFunc_step e tid w p h)))
        = (if retire_condition e w p then removeAll tid (threadsMap p) else threadsMap p)
    \<and> initThreadSize (fst (snd (threadFunc_step e tid w p h))) = initThreadSize p
    \<and> (retire_condition e w p \<longrightarrow>
         initThreadSize p \<le> length (threadsMap (fst (snd (threadFunc_step e tid w p h)))))
    \<and> (initThreadSize p \<le> length (threadsMap p) \<longrightarrow>
         initThreadSize p \<le> length (threadsMap (fst (snd (threadFunc_step e tid w p h)))))"
proof (cases "retire_condition e w p")
  case True
  then have step: "threadFunc_step e tid w p h
      = (w\<lparr>pc := Returned\<rparr>, idle_dec (map_erase tid (idle_dec p)), h)"
    using assms(1)
    by (simp add: threadFunc_step_def cached_wakeup_def retire_condition_def dur_count_def
        Let_def)
  from True have "initThreadSize p < length (threadsMap p)"
    by (simp add: retire_condition_def)
  with length_removeAll_distinct [OF assms(3), of tid]
  have "initThreadSize p \<le> length (removeAll tid (threadsMap p))"
    by linarith
  with True show ?thesis
    by (simp add: step prim_defs)
next
  case False
  then have step: "threadFunc_step e tid w p h
      = (fst (loop_head tid w p), snd (loop_head tid w p), h)"
    using assms(1)
    by (auto simp add: threadFunc_step_def cached_wakeup_def retire_condition_def
        dur_count_def Let_def)
  from False loop_head_running [OF assms(2), of tid w] show ?thesis
    by (simp add: step)
qed

text \<open>
  When the clock has not run backwards, the worker retires if and only if the wait timed
  out, the whole seconds elapsed since it last finished a task are at least
  \<open>maxThreadFreeTime\<close>, and the map holds more than \<open>initThreadSize\<close> workers.
\<close>

lemma cached_retire_monotone_clock:
  assumes "pc w = CachedWait" and "isPoolRunning p" and "distinct (threadsMap p)"
    and "threadLastWorkTime w \<le> clock_now e"
    and "clock_now e - threadLastWorkTime w < 2 ^ 63"
  shows "(pc (fst (threadFunc_step e tid w p h)) = Returned)
     = (wait_result e = timeout
        \<and> int (maxThreadFreeTime p) \<le> (clock_now e - threadLastWorkTime w) div 1000000000
        \<and> initThreadSize p < length (threadsMap p))"
proof -
  note el = dur_count_elapsed [OF assms(4,5)]
  from el have nonneg: "0 \<le> dur_count w e"
    by blast
  from el have conv: "size_t_of_int (dur_count w e) = nat (dur_count w e)"
    by blast
  from el have secs: "dur_count w e = (clock_now e - threadLastWorkTime w) div 1000000000"
    by blast
  from nonneg have cmp: "(maxThreadFreeTime p \<le> size_t_of_int (dur_count w e))
      = (int (maxThreadFreeTime p) \<le> dur_count w e)"
    by (simp add: conv le_nat_iff)
  show ?thesis
    unfolding secs [symmetric]
    using cached_retire_step [OF assms(1,2,3), of e tid h]
    by (simp add: retire_condition_def cmp)
qed

text \<open>
  Claim C5. In Cached mode a worker should remove itself on a wait timeout only when its
  idle duration is at least \<open>maxThreadFreeTime\<close> and the worker count exceeds
  \<open>initThreadSize\<close>. The code converts the signed \<^verbatim>\<open>dur.count()\<close> to \<^verbatim>\<open>size_t\<close> for
  the comparison. In \<open>clock_set_back_scenario\<close> worker 1 has been idle since the clock
  read 100 seconds and \<open>maxThreadFreeTime\<close> is 60; its first one-second wait times out
  with the clock, set back meanwhile, reading 91 seconds. \<^verbatim>\<open>dur.count()\<close> is \<open>-9\<close>, the
  worker has waited a single second, and yet it erases itself and returns.
\<close>

theorem worker_retires_when_clock_set_back:
  "snd (threads (run 0 idle_since_100s new_machine) ! 1)
     = \<lparr>pc = CachedWait, threadLastWorkTime = 100000000000\<rparr>
   \<and> maxThreadFreeTime (pool (run 0 idle_since_100s new_machine)) = 60
   \<and> initThreadSize (pool (run 0 idle_since_100s new_machine)) = 1
   \<and> threadsMap (pool (run 0 idle_since_100s new_machine)) = [0, 1]
   \<and> dur_count (snd (threads (run 0 idle_since_100s new_machine) ! 1))
        (timed_out 91000000000) = - 9
   \<and> pc (snd (threads (run 0 clock_set_back_scenario new_machine) ! 1)) = Returned
   \<and> threadsMap (pool (run 0 clock_set_back_scenario new_machine)) = [0]
   \<and> oplog (pool (run 0 clock_set_back_scenario new_machine))
       = oplog (pool (run 0 idle_since_100s new_machine)) @ [IdleDec, MapErase 1, IdleDec]"
  by (simp add: clock_set_back_scenario_def idle_since_100s_def dur_count_def eval_defs)

text \<open>
  Claim C6. On the retire path of Cached mode (the wait timed out, the idle duration has
  reached \<open>maxThreadFreeTime\<close> and the worker count is above \<open>initThreadSize\<close>) the worker
  decrements the idle counter twice before it returns, once before and once after it
  erases itself from the map: the counter ends two below its value.
\<close>

theorem retire_decrements_idle_twice:
  assumes "pc w = CachedWait" and "retire_condition e w p"
  shows "idleThreadSize (fst (snd (threadFunc_step e tid w p h))) = idleThreadSize p - 2
     \<and> oplog (fst (snd (threadFunc_step e tid w p h))) = oplog p @ [IdleDec, MapErase tid, IdleDec]
     \<and> tid \<notin> set (threadsMap (fst (snd (threadFunc_step e tid w p h))))
     \<and> pc (fst (threadFunc_step e tid w p h)) = Returned"
  using assms
  by (simp add: threadFunc_step_def cached_wakeup_def retire_condition_def dur_count_def
      prim_defs Let_def)

theorem retire_decrements_idle_twice_witness:
  "pc idle_worker = CachedWait
   \<and> retire_condition (timed_out 61000000000) idle_worker idle_pool
   \<and> idleThreadSize idle_pool = 2
   \<and> idleThreadSize (fst (snd (threadFunc_step (timed_out 61000000000) 1 idle_worker idle_pool [])))
       = 0
   \<and> oplog (fst (snd (threadFunc_step (timed_out 61000000000) 1 idle_worker idle_pool [])))
       = oplog idle_pool @ [IdleDec, MapErase 1, IdleDec]"
proof -
  have at: "pc idle_worker = CachedWait"
    by (simp add: idle_worker_fields)
  have cond: "retire_condition (timed_out 61000000000) idle_worker idle_pool"
    by (simp add: idle_worker_retires)
  show ?thesis
    using retire_decrements_idle_twice [OF at cond, of 1 "[]"] at cond
    by (simp add: idle_pool_fields)
qed

section \<open>The queue: first in, first out, and bounded\<close>

lemma pushes_append: "pushes (xs @ ys) = pushes xs @ pushes ys"
  by (induction xs rule: pushes.induct) simp_all

lemma pops_append: "pops (xs @ ys) = pops xs @ pops ys"
  by (induction xs rule: pops.induct) simp_all

lemma fold_map_emplace_view: "queue_view (fold map_emplace ids p) = queue_view p"
  by (induction ids arbitrary: p) (simp_all add: queue_view_def prim_defs pushes_append pops_append)

lemma fold_thread_start_view:
  "queue_view (fold (\<lambda>i q. idle_inc (thread_start i q)) js p) = queue_view p"
  by (induction js arbitrary: p) (simp_all add: queue_view_def prim_defs pushes_append pops_append)

lemma start_view: "start n ids p = Some p' \<Longrightarrow> queue_view p' = queue_view p"
  by (auto simp add: start_def Let_def fold_thread_start_view fold_map_emplace_view split: if_splits)
     (simp add: queue_view_def)

lemma loop_head_view:
  "queue_view (snd (loop_head tid w p)) =
     (case taskQueue p of [] \<Rightarrow> queue_view p
      | t # ts \<Rightarrow> (pops (oplog p) @ [t], ts, pushes (oplog p), taskQueueMaxSize p))"
  by (simp add: loop_head_def take_task_def queue_view_def prim_defs Let_def pushes_append
      pops_append split: list.splits)

lemma threadFunc_step_view:
  "queue_view (fst (snd (threadFunc_step e tid w p h))) = queue_view p
   \<or> (\<exists>t ts. taskQueue p = t # ts \<and>
         queue_view (fst (snd (threadFunc_step e tid w p h)))
           = (pops (oplog p) @ [t], ts, pushes (oplog p), taskQueueMaxSize p))"
proof (cases "taskQueue p")
  case Nil
  then show ?thesis
    by (cases "pc w")
      (simp_all add: threadFunc_step_def cached_wakeup_def execute_task_def loop_head_view Let_def,
       simp_all add: queue_view_def prim_defs pushes_append pops_append)
next
  case (Cons t ts)
  then show ?thesis
    by (cases "pc w")
      (simp_all add: threadFunc_step_def cached_wakeup_def execute_task_def loop_head_view Let_def,
       simp_all add: queue_view_def prim_defs pushes_append pops_append)
qed

lemma submitTask_view:
  "queue_view (sr_pool (submitTask dflt func args new_id p h)) =
     (if length (taskQueue p) < taskQueueMaxSize p
      then (pops (oplog p),
            taskQueue p @ [Wrapper (PackagedTask (\<lambda>_. func args) (length h))],
            pushes (oplog p) @ [Wrapper (PackagedTask (\<lambda>_. func args) (length h))],
            taskQueueMaxSize p)
      else queue_view p)"
  by (simp add: submitTask_def heap_defs queue_view_def prim_defs Let_def pushes_append pops_append)

lemma setters_view:
  "queue_view (setMode mode p) = queue_view p"
  "queue_view (setMaxThreadSize n p) = queue_view p"
  "queue_view (setMaxThreadFreeTime t p) = queue_view p"
  "queue_view (destructor_begin p) = queue_view p"
  by (simp_all add: queue_view_def setMode_def setMaxThreadSize_def setMaxThreadFreeTime_def
      destructor_begin_def prim_defs pushes_append pops_append)

lemma setTaskQueueMaxSize_view:
  "queue_view (setTaskQueueMaxSize n p) =
     (pops (oplog p), taskQueue p, pushes (oplog p), taskQueueMaxSize (setTaskQueueMaxSize n p))"
  by (simp add: queue_view_def setTaskQueueMaxSize_def)

text \<open>
  One event leaves the queue as it is, pops its head, pushes a task at its tail when
  there is room, or is a call of \<open>setTaskQueueMaxSize\<close>.
\<close>

lemma machine_step_view:
  "queue_view (pool (machine_step dflt ev m)) = queue_view (pool m)
   \<or> (\<exists>t ts. taskQueue (pool m) = t # ts \<and>
         queue_view (pool (machine_step dflt ev m))
           = (pops (oplog (pool m)) @ [t], ts, pushes (oplog (pool m)), taskQueueMaxSize (pool m)))
   \<or> (\<exists>t. length (taskQueue (pool m)) < taskQueueMaxSize (pool m) \<and>
         queue_view (pool (machine_step dflt ev m))
           = (pops (oplog (pool m)), taskQueue (pool m) @ [t], pushes (oplog (pool m)) @ [t],
              taskQueueMaxSize (pool m)))
   \<or> (\<exists>n. ev = SetTaskQueueMaxSize n \<and>
         queue_view (pool (machine_step dflt ev m))
           = (pops (oplog (pool m)), taskQueue (pool m), pushes (oplog (pool m)),
              taskQueueMaxSize (setTaskQueueMaxSize n (pool m))))"
proof (cases ev)
  case (Submit f new_id)
  then show ?thesis
    by (simp add: machine_step_def after_submit_def submitTask_view)
next
  case (WorkerStep k e)
  show ?thesis
  proof (cases "k < length (threads m)")
    case True
    with threadFunc_step_view [of e "fst (threads m ! k)" "snd (threads m ! k)" "pool m" "heap m"]
      WorkerStep
    show ?thesis
      by (auto simp add: machine_step_def Let_def)
  next
    case False
    with WorkerStep show ?thesis by (simp add: machine_step_def)
  qed
next
  case (Start n ids)
  then show ?thesis
    by (auto simp add: machine_step_def dest: start_view split: option.splits)
next
  case (SetTaskQueueMaxSize n)
  then show ?thesis
    by (simp add: machine_step_def setTaskQueueMaxSize_view)
qed (simp_all add: machine_step_def setters_view)

lemma machine_step_fifo:
  assumes "fifo (pool m)"
  shows "fifo (pool (machine_step dflt ev m))"
  using machine_step_view [of dflt ev m] assms
  by (auto simp add: fifo_def queue_view_def)

lemma run_fifo: "fifo (pool m) \<Longrightarrow> fifo (pool (run dflt evs m))"
  unfolding run_def
  by (induction evs arbitrary: m) (simp_all add: machine_step_fifo)

lemma fifo_new: "fifo (pool new_machine)"
  by (simp add: fifo_def new_machine_def new_ThreadPool_def)

lemma machine_step_bounded:
  assumes "queue_bounded (pool m)" and "keeps_bound ev m"
  shows "queue_bounded (pool (machine_step dflt ev m))"
  using machine_step_view [of dflt ev m] assms
  by (auto simp add: queue_bounded_def queue_view_def keeps_bound_def setTaskQueueMaxSize_def
      isRunningState_def split: PoolMode.splits)

lemma run_bounded:
  "queue_bounded (pool m) \<Longrightarrow> run_keeps_bound dflt evs m \<Longrightarrow>
     queue_bounded (pool (run dflt evs m))"
  unfolding run_def
  by (induction evs arbitrary: m) (simp_all add: machine_step_bounded)

lemma take_head:
  assumes "taskQueue p = t # ts"
  shows "loop_head tid w p =
     (w\<lparr>pc := Executing t\<rparr>,
      p\<lparr>idleThreadSize := idleThreadSize p - 1, taskQueue := ts, taskSize := taskSize p - 1,
        oplog := oplog p @ [IdleDec, QueuePop t, TaskDec, NotifyAll queueNotFull]
                   @ (if ts \<noteq> [] then [NotifyAll queueNotEmpty] else [])\<rparr>)"
  using assms
  by (simp add: loop_head_def take_task_def prim_defs Let_def)

text \<open>
  Claim C8. A worker that finds the queue non-empty (at the loop head, after the untimed
  wait of Fixed mode, or after a timed wait of Cached mode that does not end in
  retirement) performs, in this order: the decrement of the idle counter, the removal of
  the task at the head of the queue, the decrement of the task counter, the notification
  of \<open>queueNotFull\<close>, and the notification of \<open>queueNotEmpty\<close> if and only if tasks
  remain; it then executes the task it took. Hence in every run from the constructor the
  tasks taken so far, in the order taken, followed by the tasks still queued, are the
  tasks accepted in the order of their submission.
\<close>

theorem dequeue_steps_and_fifo:
  "(taskQueue p = t # ts
      \<and> (pc w = LoopHead \<or> pc w = FixedWait \<or> (pc w = CachedWait \<and> \<not> retire_condition e w p))
    \<longrightarrow> pc (fst (threadFunc_step e tid w p h)) = Executing t
      \<and> taskQueue (fst (snd (threadFunc_step e tid w p h))) = ts
      \<and> idleThreadSize (fst (snd (threadFunc_step e tid w p h))) = idleThreadSize p - 1
      \<and> taskSize (fst (snd (threadFunc_step e tid w p h))) = taskSize p - 1
      \<and> oplog (fst (snd (threadFunc_step e tid w p h)))
          = oplog p @ [IdleDec, QueuePop t, TaskDec, NotifyAll queueNotFull]
              @ (if ts \<noteq> [] then [NotifyAll queueNotEmpty] else []))
   \<and> pops (oplog (pool (run dflt evs new_machine))) @ taskQueue (pool (run dflt evs new_machine))
       = pushes (oplog (pool (run dflt evs new_machine)))"
proof -
  have "fifo (pool (run dflt evs new_machine))"
    by (rule run_fifo [OF fifo_new])
  then show ?thesis
    by (auto simp add: fifo_def threadFunc_step_def cached_wakeup_def retire_condition_def
        dur_count_def take_head Let_def)
qed

theorem dequeue_steps_and_fifo_witness:
  "taskQueue (pool (run 0 lowered_bound_scenario new_machine))
     = [Wrapper (PackagedTask (\<lambda>_. 1) 0), Wrapper (PackagedTask (\<lambda>_. 2) 1)]
   \<and> pc (fst (threadFunc_step (woken 0) 0 \<lparr>pc = LoopHead, threadLastWorkTime = 0\<rparr>
        (pool (run 0 lowered_bound_scenario new_machine)) []))
       = Executing (Wrapper (PackagedTask (\<lambda>_. 1) 0))
   \<and> taskQueue (fst (snd (threadFunc_step (woken 0) 0 \<lparr>pc = LoopHead, threadLastWorkTime = 0\<rparr>
        (pool (run 0 lowered_bound_scenario new_machine)) [])))
       = [Wrapper (PackagedTask (\<lambda>_. 2) 1)]
   \<and> oplog (fst (snd (threadFunc_step (woken 0) 0 \<lparr>pc = LoopHead, threadLastWorkTime = 0\<rparr>
        (pool (run 0 lowered_bound_scenario new_machine)) [])))
       = oplog (pool (run 0 lowered_bound_scenario new_machine))
         @ [IdleDec, QueuePop (Wrapper (PackagedTask (\<lambda>_. 1) 0)), TaskDec,
            NotifyAll queueNotFull, NotifyAll queueNotEmpty]
   \<and> pops (oplog (pool (run 0 end_to_end_example new_machine)))
       = [Wrapper (PackagedTask (\<lambda>_. 3) 0), Wrapper (PackagedTask (\<lambda>_. 6) 1)]
   \<and> pushes (oplog (pool (run 0 end_to_end_example new_machine)))
       = [Wrapper (PackagedTask (\<lambda>_. 3) 0), Wrapper (PackagedTask (\<lambda>_. 6) 1)]
   \<and> pops (oplog (pool (run 0 end_to_end_example new_machine)))
        @ taskQueue (pool (run 0 end_to_end_example new_machine))
       = pushes (oplog (pool (run 0 end_to_end_example new_machine)))"
proof -
  have q: "taskQueue (pool (run 0 lowered_bound_scenario new_machine))
     = [Wrapper (PackagedTask (\<lambda>_. 1) 0), Wrapper (PackagedTask (\<lambda>_. 2) 1)]"
    by (simp add: lowered_bound_scenario_def eval_defs)
  have p: "pops (oplog (pool (run 0 end_to_end_example new_machine)))
       = [Wrapper (PackagedTask (\<lambda>_. 3) 0), Wrapper (PackagedTask (\<lambda>_. 6) 1)]
     \<and> pushes (oplog (pool (run 0 end_to_end_example new_machine)))
       = [Wrapper (PackagedTask (\<lambda>_. 3) 0), Wrapper (PackagedTask (\<lambda>_. 6) 1)]"
    by (simp add: end_to_end_example_def two_fixed_workers_def eval_defs)
  show ?thesis
    using dequeue_steps_and_fifo [of "pool (run 0 lowered_bound_scenario new_machine)"
        "Wrapper (PackagedTask (\<lambda>_. 1) 0)" "[Wrapper (PackagedTask (\<lambda>_. 2) 1)]"
        "\<lparr>pc = LoopHead, threadLastWorkTime = 0\<rparr>" "woken 0" 0 "[]" 0 end_to_end_example]
      q p
    by simp
qed

text \<open>
  Claim C3, as stated, fails: the bound can be lowered below the number of tasks already
  queued. After \<open>lowered_bound_scenario\<close> two tasks are queued and the bound is 1.
\<close>

theorem queue_bound_broken_by_setter:
  "\<not> queue_bounded (pool (run 0 lowered_bound_scenario new_machine))"
  by (simp add: queue_bounded_def lowered_bound_scenario_def eval_defs)

text \<open>
  Claim C3, amended. The size of the task queue never exceeds \<open>taskQueueMaxSize\<close> as long
  as no call of \<open>setTaskQueueMaxSize\<close> takes effect with a value below the number of
  tasks queued (such a call can take effect only while the pool is not running and in
  Cached mode; on a running pool every event keeps the bound): from a state in which the
  bound holds, it holds after any run of submissions, worker steps, \<open>start\<close>, the
  destructor's begin and setter calls. A submission appends its task only when the size
  is below the maximum, and the bound holds after the append; a submission whose wait
  for room elapses appends nothing.
\<close>

theorem queue_bound_kept:
  assumes "queue_bounded (pool m)" and "run_keeps_bound dflt evs m"
  shows "queue_bounded (pool (run dflt evs m))
     \<and> (length (taskQueue p) < taskQueueMaxSize p \<longrightarrow>
          taskQueue (sr_pool (submitTask dflt func args new_id p h))
            = taskQueue p @ [Wrapper (PackagedTask (\<lambda>_. func args) (length h))]
          \<and> queue_bounded (sr_pool (submitTask dflt func args new_id p h)))
     \<and> (\<not> length (taskQueue p) < taskQueueMaxSize p \<longrightarrow>
          taskQueue (sr_pool (submitTask dflt func args new_id p h)) = taskQueue p)
     \<and> (isPoolRunning (pool m) \<longrightarrow> keeps_bound ev m)"
proof -
  have "queue_bounded (pool (run dflt evs m))"
    by (rule run_bounded [OF assms])
  moreover have "isPoolRunning (pool m) \<longrightarrow> keeps_bound ev m"
    by (simp add: keeps_bound_def split: event.splits)
  moreover note submitTask_view [of dflt func args new_id p h]
  ultimately show ?thesis
    by (auto simp add: queue_view_def queue_bounded_def)
qed

theorem queue_bound_kept_witness:
  "queue_bounded (pool bounded_start)
   \<and> run_keeps_bound 0 bounded_run_example bounded_start
   \<and> queue_bounded (pool (run 0 bounded_run_example bounded_start))
   \<and> length (taskQueue (pool (run 0 bounded_run_example bounded_start))) = 1
   \<and> taskQueueMaxSize (pool (run 0 bounded_run_example bounded_start)) = 1"
proof -
  have b: "queue_bounded (pool bounded_start)"
    by (simp add: queue_bounded_def bounded_start_def eval_defs)
  have k: "run_keeps_bound 0 bounded_run_example bounded_start"
    by (simp add: bounded_run_example_def bounded_start_def keeps_bound_def eval_defs)
  have v: "length (taskQueue (pool (run 0 bounded_run_example bounded_start))) = 1
      \<and> taskQueueMaxSize (pool (run 0 bounded_run_example bounded_start)) = 1"
    by (simp add: bounded_run_example_def bounded_start_def eval_defs)
  show ?thesis
    using queue_bound_kept [OF b k, THEN conjunct1] b k v
    by simp
qed

section \<open>From submission to result\<close>

lemma concat_map_update_mset:
  "k < length ts \<Longrightarrow>
     mset (concat (map g (ts[k := y]))) + mset (g (ts ! k)) = mset (concat (map g ts)) + mset (g y)"
proof (induction ts arbitrary: k)
  case Nil
  then show ?case by simp
next
  case (Cons a ts)
  then show ?case by (cases k) simp_all
qed

lemma executing_spawn:
  "concat (map (\<lambda>tw. executing (snd tw)) (spawn tid ts)) = concat (map (\<lambda>tw. executing (snd tw)) ts)"
  by (simp add: spawn_def executing_def)

lemma executing_fold_spawn:
  "concat (map (\<lambda>tw. executing (snd tw)) (fold spawn js ts)) = concat (map (\<lambda>tw. executing (snd tw)) ts)"
  by (induction js arbitrary: ts) (simp_all add: executing_spawn)

lemma fold_map_emplace_queue: "taskQueue (fold map_emplace ids p) = taskQueue p"
  by (induction ids arbitrary: p) (simp_all add: prim_defs)

lemma fold_thread_start_queue:
  "taskQueue (fold (\<lambda>i q. idle_inc (thread_start i q)) js p) = taskQueue p"
  by (induction js arbitrary: p) (simp_all add: prim_defs)

lemma start_queue: "start n ids p = Some p' \<Longrightarrow> taskQueue p' = taskQueue p"
  by (auto simp add: start_def Let_def fold_thread_start_queue fold_map_emplace_queue split: if_splits)

text \<open>
  A step of a worker leaves the queue, the task it executes and the heap alone, or moves
  the head of the queue into its hands, or runs the task it holds and lets go of it.
\<close>

lemma threadFunc_step_live:
  "(taskQueue (fst (snd (threadFunc_step e tid w p h))) = taskQueue p
      \<and> executing (fst (threadFunc_step e tid w p h)) = executing w
      \<and> snd (snd (threadFunc_step e tid w p h)) = h)
   \<or> (\<exists>t. taskQueue p = t # taskQueue (fst (snd (threadFunc_step e tid w p h)))
      \<and> executing w = []
      \<and> executing (fst (threadFunc_step e tid w p h)) = [t]
      \<and> snd (snd (threadFunc_step e tid w p h)) = h)
   \<or> (\<exists>t. executing w = [t]
      \<and> executing (fst (threadFunc_step e tid w p h)) = []
      \<and> taskQueue (fst (snd (threadFunc_step e tid w p h))) = taskQueue p
      \<and> snd (snd (threadFunc_step e tid w p h)) = release_task t (run_task t h))"
  by (cases "pc w"; cases "taskQueue p")
    (simp_all add: threadFunc_step_def cached_wakeup_def execute_task_def loop_head_def take_task_def
      executing_def prim_defs Let_def)

lemma update_two_appended:
  "(h @ [a, b])[Suc (length h) := x, length h := y] = h @ [y, x]"
  by (simp add: list_update_append)

lemma submitTask_heap:
  "sr_heap (submitTask dflt func args new_id p h) =
     (if length (taskQueue p) < taskQueueMaxSize p then h @ [NotReady]
      else h @ [Failed broken_promise, Failed broken_promise])"
  by (simp add: submitTask_def heap_defs Let_def nth_append update_two_appended)

lemma submitTask_queue:
  "taskQueue (sr_pool (submitTask dflt func args new_id p h)) =
     (if length (taskQueue p) < taskQueueMaxSize p
      then taskQueue p @ [Wrapper (PackagedTask (\<lambda>_. func args) (length h))]
      else taskQueue p)"
  by (simp add: submitTask_def heap_defs prim_defs Let_def)

lemma submitTask_future:
  "sr_future (submitTask dflt func args new_id p h) =
     (if length (taskQueue p) < taskQueueMaxSize p then length h else Suc (length h))"
  by (simp add: submitTask_def heap_defs Let_def)

lemma after_submit_live:
  "live (after_submit r m) = mset (taskQueue (sr_pool r))
      + mset (concat (map (\<lambda>tw. executing (snd tw)) (threads m)))"
  by (simp add: after_submit_def live_def live_tasks_def executing_spawn split: option.splits)

text \<open>How one event changes the live tasks and the heap.\<close>

lemma machine_step_live:
  "(live (machine_step dflt ev m) = live m \<and> heap (machine_step dflt ev m) = heap m)
   \<or> (\<exists>f. live (machine_step dflt ev m) = live m + {#Wrapper (PackagedTask f (length (heap m)))#}
         \<and> heap (machine_step dflt ev m) = heap m @ [NotReady])
   \<or> (live (machine_step dflt ev m) = live m
         \<and> heap (machine_step dflt ev m) = heap m @ [Failed broken_promise, Failed broken_promise])
   \<or> (\<exists>t. live m = live (machine_step dflt ev m) + {#t#}
         \<and> heap (machine_step dflt ev m) = release_task t (run_task t (heap m)))"
proof (cases ev)
  case (Submit f new_id)
  then show ?thesis
    by (simp add: machine_step_def after_submit_live submitTask_queue)
       (simp add: after_submit_def submitTask_heap live_def live_tasks_def)
next
  case (WorkerStep k e)
  show ?thesis
  proof (cases "k < length (threads m)")
    case True
    let ?tid = "fst (threads m ! k)" and ?w = "snd (threads m ! k)"
    let ?r = "threadFunc_step e ?tid ?w (pool m) (heap m)"
    have m': "machine_step dflt ev m
        = m\<lparr>pool := fst (snd ?r), heap := snd (snd ?r), threads := (threads m)[k := (?tid, fst ?r)]\<rparr>"
      using True WorkerStep by (simp add: machine_step_def Let_def)
    have upd: "mset (concat (map (\<lambda>tw. executing (snd tw)) ((threads m)[k := (?tid, fst ?r)])))
          + mset (executing ?w)
        = mset (concat (map (\<lambda>tw. executing (snd tw)) (threads m))) + mset (executing (fst ?r))"
      using concat_map_update_mset [OF True, of "\<lambda>tw. executing (snd tw)" "(?tid, fst ?r)"]
      by simp
    from threadFunc_step_live [of e ?tid ?w "pool m" "heap m"]
    consider (same) "taskQueue (fst (snd ?r)) = taskQueue (pool m)"
        "executing (fst ?r) = executing ?w" "snd (snd ?r) = heap m"
      | (take) t where "taskQueue (pool m) = t # taskQueue (fst (snd ?r))"
        "executing ?w = []" "executing (fst ?r) = [t]" "snd (snd ?r) = heap m"
      | (exec) t where "executing ?w = [t]" "executing (fst ?r) = []"
        "taskQueue (fst (snd ?r)) = taskQueue (pool m)"
        "snd (snd ?r) = release_task t (run_task t (heap m))"
      by blast
    then show ?thesis
    proof cases
      case same
      with upd have "live (machine_step dflt ev m) = live m \<and> heap (machine_step dflt ev m) = heap m"
        by (simp add: m' live_def live_tasks_def)
      then show ?thesis by blast
    next
      case take
      with upd have "live (machine_step dflt ev m) = live m \<and> heap (machine_step dflt ev m) = heap m"
        by (simp add: m' live_def live_tasks_def)
      then show ?thesis by blast
    next
      case exec
      with upd have "live m = live (machine_step dflt ev m) + {#t#}
          \<and> heap (machine_step dflt ev m) = release_task t (run_task t (heap m))"
        by (simp add: m' live_def live_tasks_def)
      then show ?thesis by blast
    qed
  next
    case False
    with WorkerStep show ?thesis by (simp add: machine_step_def)
  qed
next
  case (Start n ids)
  then show ?thesis
    by (auto simp add: machine_step_def live_def live_tasks_def executing_fold_spawn
        dest: start_queue split: option.splits)
qed (simp_all add: machine_step_def live_def live_tasks_def setMode_def setMaxThreadSize_def
      setMaxThreadFreeTime_def setTaskQueueMaxSize_def destructor_begin_def prim_defs)

lemma length_run_release: "length (release_task t (run_task t h)) = length h"
  by (cases t) (simp_all add: heap_defs)

lemma nth_run_release_other:
  "\<not> refers j t \<Longrightarrow> release_task t (run_task t h) ! j = h ! j"
  by (cases t) (auto simp add: heap_defs refers_def task_ref_def)

lemma nth_run_release_self:
  "refers j t \<Longrightarrow> j < length h \<Longrightarrow> h ! j = NotReady \<Longrightarrow>
     \<exists>pt. t = Wrapper pt \<and> state_ref pt = j \<and> release_task t (run_task t h) ! j = Ready (stored pt ())"
  by (cases t) (auto simp add: heap_defs refers_def task_ref_def)

lemma awaiting_step:
  assumes inv: "awaiting fut v m"
  shows "awaiting fut v (machine_step dflt ev m)"
proof -
  let ?m' = "machine_step dflt ev m"
  from machine_step_live [of dflt ev m]
  consider (same) "live ?m' = live m" "heap ?m' = heap m"
    | (push) f where "live ?m' = live m + {#Wrapper (PackagedTask f (length (heap m)))#}"
        "heap ?m' = heap m @ [NotReady]"
    | (failed) "live ?m' = live m"
        "heap ?m' = heap m @ [Failed broken_promise, Failed broken_promise]"
    | (exec) t where "live m = live ?m' + {#t#}"
        "heap ?m' = release_task t (run_task t (heap m))"
    by blast
  then show ?thesis
  proof cases
    case same
    with inv show ?thesis by (simp add: awaiting_def)
  next
    case push
    from inv have "fut < length (heap m)" by (simp add: awaiting_def)
    then have new: "\<not> refers fut (Wrapper (PackagedTask f (length (heap m))))"
      by (simp add: refers_def task_ref_def)
    from inv push new show ?thesis
      by (auto simp add: awaiting_def nth_append task_ref_def less_Suc_eq refers_def)
  next
    case failed
    with inv show ?thesis
      by (auto simp add: awaiting_def nth_append less_Suc_eq)
  next
    case exec
    from inv have lt: "fut < length (heap m)" by (simp add: awaiting_def)
    show ?thesis
    proof (cases "refers fut t")
      case True
      with inv exec(1) have one: "size (filter_mset (refers fut) (live m)) = 1"
        and nr: "heap m ! fut = NotReady"
        by (auto simp add: awaiting_def)
      from one exec(1) True have none: "filter_mset (refers fut) (live ?m') = {#}"
        by simp
      from nth_run_release_self [OF True lt nr] obtain pt where
        t: "t = Wrapper pt" "state_ref pt = fut"
        and rd: "release_task t (run_task t (heap m)) ! fut = Ready (stored pt ())"
        by blast
      from inv exec(1) t have "stored pt () = v"
        by (simp add: awaiting_def)
      with rd have "heap ?m' ! fut = Ready v"
        by (simp add: exec(2))
      moreover from none have "\<not> (\<exists>t \<in># live ?m'. refers fut t)"
        by simp
      ultimately show ?thesis
        using inv exec lt
        by (simp add: awaiting_def length_run_release)
    next
      case False
      with exec(1) have same_refs:
        "filter_mset (refers fut) (live m) = filter_mset (refers fut) (live ?m')"
        "(\<exists>t \<in># live m. refers fut t) = (\<exists>t \<in># live ?m'. refers fut t)"
        by simp_all
      from exec(1) have sub: "\<And>x. x \<in># live ?m' \<Longrightarrow> x \<in># live m"
        by simp
      from inv have "heap ?m' ! fut = heap m ! fut"
        by (simp add: exec(2) nth_run_release_other [OF False])
      with inv sub show ?thesis
        unfolding awaiting_def same_refs
        by (auto simp add: exec(2) length_run_release)
    qed
  qed
qed

lemma awaiting_run: "awaiting fut v m \<Longrightarrow> awaiting fut v (run dflt evs m)"
  unfolding run_def
  by (induction evs arbitrary: m) (simp_all add: awaiting_step)

lemma pending_iff_live: "(fut \<in> set (pending_refs m)) = (\<exists>t \<in># live m. refers fut t)"
  by (auto simp add: pending_refs_def live_def refers_def)

lemma machine_ok_live:
  "machine_ok m = (\<forall>t \<in># live m. \<forall>r \<in> set (task_ref t). r < length (heap m))"
  by (auto simp add: machine_ok_def pending_refs_def live_def list_all_iff)

text \<open>Every machine reached from the constructor is well-formed.\<close>

lemma machine_ok_step:
  assumes "machine_ok m"
  shows "machine_ok (machine_step dflt ev m)"
  using machine_step_live [of dflt ev m] assms
  unfolding machine_ok_live
  by (elim disjE exE conjE) (auto simp add: length_run_release task_ref_def less_Suc_eq)

lemma machine_ok_run: "machine_ok m \<Longrightarrow> machine_ok (run dflt evs m)"
  unfolding run_def
  by (induction evs arbitrary: m) (simp_all add: machine_ok_step)

lemma machine_ok_new: "machine_ok new_machine"
  by (simp add: machine_ok_def pending_refs_def live_tasks_def new_machine_def new_ThreadPool_def)

lemma awaiting_after_submit:
  assumes ok: "machine_ok m"
    and room: "length (taskQueue (pool m)) < taskQueueMaxSize (pool m)"
  shows "awaiting (length (heap m)) (func args)
           (after_submit (submitTask dflt func args new_id (pool m) (heap m)) m)"
proof -
  let ?T = "Wrapper (PackagedTask (\<lambda>_. func args) (length (heap m)))"
  let ?m' = "after_submit (submitTask dflt func args new_id (pool m) (heap m)) m"
  have l: "live ?m' = live m + {#?T#}"
    unfolding after_submit_live submitTask_queue
    using room by (simp add: live_def live_tasks_def)
  have h: "heap ?m' = heap m @ [NotReady]"
    using room by (simp add: after_submit_def submitTask_heap)
  from ok have old: "\<And>t. t \<in># live m \<Longrightarrow> \<not> refers (length (heap m)) t"
    by (auto simp add: machine_ok_live refers_def)
  then have none: "filter_mset (refers (length (heap m))) (live m) = {#}"
    by simp
  have new: "refers (length (heap m)) ?T"
    by (simp add: refers_def task_ref_def)
  have st: "state_ref pt \<noteq> length (heap m)" if "Wrapper pt \<in># live m" for pt
    using old [OF that] by (simp add: refers_def task_ref_def)
  from ok show ?thesis
    unfolding awaiting_def l h
    using none new st
    by (auto simp add: machine_ok_live less_Suc_eq task_ref_def)
qed

lemma awaiting_future_get:
  assumes "awaiting fut v m"
  shows "future_get (heap m) fut = (if fut \<in> set (pending_refs m) then Blocks else Returns v)"
  using assms
  by (simp add: awaiting_def pending_iff_live future_get_def)

lemma executing_step_heap:
  assumes "k < length (threads m)" and "pc (snd (threads m ! k)) = Executing t"
  shows "heap (machine_step dflt (WorkerStep k e) m) = release_task t (run_task t (heap m))"
  using assms
  by (simp add: machine_step_def threadFunc_step_def execute_task_def Let_def)

lemma executing_is_live:
  assumes "k < length (threads m)" and "pc (snd (threads m ! k)) = Executing t"
  shows "t \<in># live m"
proof -
  from assms(1) have "threads m ! k \<in> set (threads m)" by simp
  moreover from assms(2) have "t \<in> set (executing (snd (threads m ! k)))"
    by (simp add: executing_def)
  ultimately show ?thesis
    by (auto simp add: live_def live_tasks_def)
qed

text \<open>
  Claim C2. Let \<open>func\<close> and \<open>args\<close> be submitted to a well-formed machine (every machine
  reached from the constructor is one) while the queue has room. Then the task that wraps
  \<open>func args\<close> is appended at the tail of the queue, and after any further run of the
  pool and its workers the returned future blocks as long as this task is queued or
  being executed, and yields exactly \<open>func args\<close> once it is neither, that is, once a
  worker has executed it. In particular the step of a worker that executes the task
  makes the future yield \<open>func args\<close>.
\<close>

theorem submitted_task_result:
  assumes ok: "machine_ok m"
    and room: "length (taskQueue (pool m)) < taskQueueMaxSize (pool m)"
  shows "taskQueue (sr_pool (submitTask dflt func args new_id (pool m) (heap m)))
           = taskQueue (pool m)
             @ [Wrapper (PackagedTask (\<lambda>_. func args)
                  (sr_future (submitTask dflt func args new_id (pool m) (heap m))))]
     \<and> future_get
          (heap (run dflt evs (after_submit (submitTask dflt func args new_id (pool m) (heap m)) m)))
          (sr_future (submitTask dflt func args new_id (pool m) (heap m)))
        = (if sr_future (submitTask dflt func args new_id (pool m) (heap m))
                \<in> set (pending_refs
                     (run dflt evs (after_submit (submitTask dflt func args new_id (pool m) (heap m)) m)))
           then Blocks else Returns (func args))
     \<and> (\<forall>k e. k < length (threads
                     (run dflt evs (after_submit (submitTask dflt func args new_id (pool m) (heap m)) m)))
            \<and> pc (snd (threads
                     (run dflt evs (after_submit (submitTask dflt func args new_id (pool m) (heap m)) m)) ! k))
                = Executing (Wrapper (PackagedTask (\<lambda>_. func args)
                    (sr_future (submitTask dflt func args new_id (pool m) (heap m)))))
          \<longrightarrow> future_get
                (heap (machine_step dflt (WorkerStep k e)
                   (run dflt evs (after_submit (submitTask dflt func args new_id (pool m) (heap m)) m))))
                (sr_future (submitTask dflt func args new_id (pool m) (heap m)))
              = Returns (func args))"
proof -
  let ?r = "submitTask dflt func args new_id (pool m) (heap m)"
  let ?fut = "length (heap m)"
  let ?T = "Wrapper (PackagedTask (\<lambda>_. func args) ?fut)"
  let ?m' = "run dflt evs (after_submit ?r m)"
  have fut: "sr_future ?r = ?fut"
    using room by (simp add: submitTask_future)
  have q: "taskQueue (sr_pool ?r) = taskQueue (pool m) @ [?T]"
    using room by (simp add: submitTask_queue)
  have inv: "awaiting ?fut (func args) ?m'"
    by (rule awaiting_run [OF awaiting_after_submit [OF ok room]])
  have get: "future_get (heap ?m') ?fut
      = (if ?fut \<in> set (pending_refs ?m') then Blocks else Returns (func args))"
    by (rule awaiting_future_get [OF inv])
  have ex: "future_get (heap (machine_step dflt (WorkerStep k e) ?m')) ?fut = Returns (func args)"
    if k: "k < length (threads ?m')" and at: "pc (snd (threads ?m' ! k)) = Executing ?T" for k e
  proof -
    have ref: "refers ?fut ?T" by (simp add: refers_def task_ref_def)
    from executing_is_live [OF k at] ref
    have "\<exists>t \<in># live ?m'. refers ?fut t"
      by blast
    with inv have nr: "heap ?m' ! ?fut = NotReady" and lt: "?fut < length (heap ?m')"
      unfolding awaiting_def by simp_all
    from nth_run_release_self [OF ref lt nr]
    have "release_task ?T (run_task ?T (heap ?m')) ! ?fut = Ready (func args)"
      by auto
    with lt show ?thesis
      by (simp add: executing_step_heap [OF k at] future_get_def length_run_release)
  qed
  show ?thesis
    unfolding fut using q get ex by simp
qed

text \<open>
  The example of the spec: on a pool with two fixed workers, the tasks \<open>1 + 2\<close> and
  \<open>1 + 2 + 3\<close> resolve to 3 and 6.
\<close>

lemma end_to_end_results:
  "future_get (heap (run 0 end_to_end_example new_machine)) 0 = Returns 3
   \<and> future_get (heap (run 0 end_to_end_example new_machine)) 1 = Returns 6"
  by (simp add: end_to_end_example_def two_fixed_workers_def eval_defs)

theorem submitted_task_result_witness:
  "machine_ok (run 0 two_fixed_workers new_machine)
   \<and> length (taskQueue (pool (run 0 two_fixed_workers new_machine)))
       < taskQueueMaxSize (pool (run 0 two_fixed_workers new_machine))
   \<and> future_get
        (heap (run 0 [WorkerStep 0 (woken 0), WorkerStep 0 (woken 5)]
          (after_submit
            (submitTask 0 (\<lambda>(a, b). a + b) (1, 2) 2
              (pool (run 0 two_fixed_workers new_machine))
              (heap (run 0 two_fixed_workers new_machine)))
            (run 0 two_fixed_workers new_machine))))
        (sr_future
          (submitTask 0 (\<lambda>(a, b). a + b) (1, 2) 2
            (pool (run 0 two_fixed_workers new_machine))
            (heap (run 0 two_fixed_workers new_machine))))
       = Returns (3 :: int)
   \<and> future_get
        (heap (run 0 [WorkerStep 0 (woken 0)]
          (after_submit
            (submitTask 0 (\<lambda>(a, b). a + b) (1, 2) 2
              (pool (run 0 two_fixed_workers new_machine))
              (heap (run 0 two_fixed_workers new_machine)))
            (run 0 two_fixed_workers new_machine))))
        (sr_future
          (submitTask 0 (\<lambda>(a, b). a + b) (1, 2) 2
            (pool (run 0 two_fixed_workers new_machine))
            (heap (run 0 two_fixed_workers new_machine))))
       = (Blocks :: int get_result)"
proof -
  let ?m = "run 0 two_fixed_workers new_machine :: int machine"
  let ?r = "submitTask 0 (\<lambda>(a, b). a + b) (1 :: int, 2 :: int) 2 (pool ?m) (heap ?m)"
  have ok: "machine_ok ?m"
    by (rule machine_ok_run [OF machine_ok_new])
  have room: "length (taskQueue (pool ?m)) < taskQueueMaxSize (pool ?m)"
    by (simp add: two_fixed_workers_def eval_defs)
  have finished: "sr_future ?r
      \<notin> set (pending_refs (run 0 [WorkerStep 0 (woken 0), WorkerStep 0 (woken 5)]
                (after_submit ?r ?m)))"
    by (simp add: two_fixed_workers_def eval_defs pending_refs_def live_tasks_def executing_def
        task_ref_def)
  have busy: "sr_future ?r
      \<in> set (pending_refs (run 0 [WorkerStep 0 (woken 0)] (after_submit ?r ?m)))"
    by (simp add: two_fixed_workers_def eval_defs pending_refs_def live_tasks_def executing_def
        task_ref_def)
  show ?thesis
    using submitted_task_result [OF ok room, of 0 "\<lambda>(a, b). a + b" "(1, 2)" 2
        "[WorkerStep 0 (woken 0), WorkerStep 0 (woken 5)]", THEN conjunct2, THEN conjunct1]
      submitted_task_result [OF ok room, of 0 "\<lambda>(a, b). a + b" "(1, 2)" 2
        "[WorkerStep 0 (woken 0)]", THEN conjunct2, THEN conjunct1]
      ok room finished busy
    by simp
qed

section \<open>The ways out of the worker loop\<close>

text \<open>
  A worker leaves its loop either on the shutdown path, which is taken at the loop head
  with the lock held and the queue seen empty, or on the retire path of Cached mode,
  which is taken after the timed wait and looks only at the idle time and the number of
  workers.
\<close>

lemma exit_paths:
  assumes "pc (fst (threadFunc_step e tid w p h)) = Returned" and "pc w \<noteq> Returned"
  shows "(taskQueue p = [] \<and> \<not> isPoolRunning p)
     \<or> (pc w = CachedWait \<and> retire_condition e w p)"
  using assms
  by (cases "pc w"; cases "taskQueue p"; cases "poolMode p")
    (auto simp add: threadFunc_step_def cached_wakeup_def loop_head_def take_task_def
      execute_task_def retire_condition_def dur_count_def prim_defs Let_def
      split: if_splits)

text \<open>
  Claim C7. A worker should leave its loop only while the task queue is empty, so that
  no queued task is abandoned. The retire path does not look at the queue after the
  timed wait, during which the lock is released. In \<open>retire_race_scenario\<close> worker 1,
  which waited on an empty queue, returns and erases itself while the task submitted
  during its wait is queued. In \<open>abandoned_task_scenario\<close> (a pool started with no
  worker) the only worker does so: a task is queued, no worker is left, the future of
  the task is not ready, and the destructor would not wait.
\<close>

theorem worker_retires_while_task_queued:
  "pc (snd (threads (run 0 two_idle_workers new_machine) ! 1)) = CachedWait
   \<and> taskQueue (pool (run 0 two_idle_workers new_machine)) = []
   \<and> pc (snd (threads (run 0 retire_race_scenario new_machine) ! 1)) = Returned
   \<and> threadsMap (pool (run 0 retire_race_scenario new_machine)) = [0]
   \<and> taskQueue (pool (run 0 retire_race_scenario new_machine))
       = [Wrapper (PackagedTask (\<lambda>_. 4) 2)]
   \<and> map (\<lambda>tw. pc (snd tw)) (threads (run 0 abandoned_task_scenario new_machine)) = [Returned]
   \<and> threadsMap (pool (run 0 abandoned_task_scenario new_machine)) = []
   \<and> taskQueue (pool (run 0 abandoned_task_scenario new_machine))
       = [Wrapper (PackagedTask (\<lambda>_. 2) 1)]
   \<and> isPoolRunning (pool (run 0 abandoned_task_scenario new_machine))
   \<and> future_get (heap (run 0 abandoned_task_scenario new_machine)) 1 = Blocks
   \<and> destructor_may_return (destructor_begin (pool (run 0 abandoned_task_scenario new_machine)))"
  by (simp add: retire_race_scenario_def abandoned_task_scenario_def two_idle_workers_def
      destructor_may_return_def eval_defs)

end
